theory Spec2Isabelle
  imports Main "HOL-Library.Sublist"
begin

section \<open>Python strings\<close>

text \<open>
  A Python \<open>str\<close> is a sequence of Unicode code points; \<open>len\<close> and slicing count code
  points. The Korean text of the repository does not fit the 8-bit characters of HOL, so a
  string is a list of code points. \<open>ustr\<close> embeds an ASCII literal.
\<close>

type_synonym ustring = "nat list"

definition ustr :: "string \<Rightarrow> ustring" where
  "ustr s = map of_char s"

text \<open>
  The whitespace class of \<open>str.strip()\<close> and of \<open>\s\<close> in a \<open>str\<close> pattern of \<open>re\<close>
  (both are \<open>str.isspace\<close> in CPython): the ASCII controls 9 to 13 and 28 to 31, the space,
  and the Unicode separators.
\<close>

definition is_space :: "nat \<Rightarrow> bool" where
  "is_space c \<longleftrightarrow>
     (9 \<le> c \<and> c \<le> 13) \<or> (28 \<le> c \<and> c \<le> 32) \<or> c = 133 \<or> c = 160 \<or> c = 5760 \<or>
     (8192 \<le> c \<and> c \<le> 8202) \<or> c = 8232 \<or> c = 8233 \<or> c = 8239 \<or> c = 8287 \<or> c = 12288"

definition strip :: "ustring \<Rightarrow> ustring" where
  "strip s = rev (dropWhile is_space (rev (dropWhile is_space s)))"

text \<open>\<open>sep.join(xs)\<close>\<close>

fun py_join :: "ustring \<Rightarrow> ustring list \<Rightarrow> ustring" where
  "py_join sep [] = []"
| "py_join sep [x] = x"
| "py_join sep (x # y # ys) = x @ sep @ py_join sep (y # ys)"

section \<open>The summarizer: \<open>PostAnalyzer._create_simple_summary\<close> (scripts/analyzer.py)\<close>

text \<open>The characters of the class \<open>[.!?]\<close>.\<close>

definition is_terminal :: "nat \<Rightarrow> bool" where
  "is_terminal c \<longleftrightarrow> c = 46 \<or> c = 33 \<or> c = 63"

text \<open>
  \<open>re.split(r'[.!?]\s+', content)\<close>: scanning from the left, a terminal character that is
  followed by at least one whitespace character ends the current piece; the terminal and
  the whole run of whitespace after it (the match is greedy) are dropped. The text after
  the last match is the last piece, possibly empty.
\<close>

fun starts_with_space :: "ustring \<Rightarrow> bool" where
  "starts_with_space [] = False"
| "starts_with_space (d # _) = is_space d"

function split_sentences :: "ustring \<Rightarrow> ustring list" where
  "split_sentences [] = [[]]"
| "split_sentences (c # cs) =
     (if is_terminal c \<and> starts_with_space cs
      then [] # split_sentences (dropWhile is_space cs)
      else (case split_sentences cs of
              [] \<Rightarrow> [[c]]
            | p # ps \<Rightarrow> (c # p) # ps))"
  by pat_completeness auto
termination
  by (relation "measure length") (auto simp: less_Suc_eq_le length_dropWhile_le)

text \<open>\<open>[s.strip() for s in sentences if len(s.strip()) > 10]\<close>\<close>

definition surviving_sentences :: "ustring \<Rightarrow> ustring list" where
  "surviving_sentences content =
     map strip (filter (\<lambda>s. length (strip s) > 10) (split_sentences content))"

text \<open>
  The selection loop over \<open>sentences[:5]\<close>; \<open>acc\<close> is \<open>summary_sentences\<close>. The first
  \<open>break\<close> leaves the loop before the sentence that would take the total over 300 is added,
  the second after the sentence that makes two.
\<close>

fun select_sentences :: "ustring list \<Rightarrow> ustring list \<Rightarrow> nat \<Rightarrow> ustring list" where
  "select_sentences [] acc total_length = acc"
| "select_sentences (s # ss) acc total_length =
     (if total_length + length s > 300 then acc
      else if length (acc @ [s]) \<ge> 2 then acc @ [s]
      else select_sentences ss (acc @ [s]) (total_length + length s))"

text \<open>The placeholder sentence of the first branch, as code points.\<close>

definition placeholder :: ustring where
  "placeholder = [45236, 50857, 51012, 32, 54869, 51064, 54624, 32, 49688, 32,
                  50630, 49845, 45768, 45796, 46]"

text \<open>\<open>content[:200].strip() + '...'\<close>\<close>

definition truncated :: "ustring \<Rightarrow> ustring" where
  "truncated content = strip (take 200 content) @ ustr ''...''"

text \<open>
  The argument is \<open>post['content']\<close>; \<open>None\<close> is Python's \<open>None\<close>, which \<open>not content\<close>
  treats like the empty string.
\<close>

definition create_simple_summary :: "ustring option \<Rightarrow> ustring" where
  "create_simple_summary content_opt =
     (case content_opt of
        None \<Rightarrow> placeholder
      | Some content \<Rightarrow>
          if content = [] then placeholder
          else
            let sentences = surviving_sentences content in
            if sentences = [] then truncated content
            else
              let summary_sentences = select_sentences (take 5 sentences) [] 0 in
              if summary_sentences \<noteq> [] then py_join (ustr ''. '') summary_sentences @ ustr ''.''
              else truncated content)"

text \<open>
  A text has a break when one of its terminal characters is directly followed by
  whitespace: the places where the pattern of the split matches.
\<close>

fun has_break :: "ustring \<Rightarrow> bool" where
  "has_break (c # d # cs) = ((is_terminal c \<and> is_space d) \<or> has_break (d # cs))"
| "has_break _ = False"

section \<open>Errors\<close>

text \<open>The exceptions of the modelled code, as values: \<open>Inl e\<close> is a raise of \<open>e\<close>.\<close>

datatype py_error =
  ValueError | TypeError | KeyError | OverflowError | ParserError | RequestException | OSError

section \<open>The classifier: \<open>PostAnalyzer._classify_category\<close> (scripts/analyzer.py)\<close>

text \<open>\<open>needle in hay\<close> on strings: \<open>needle\<close> occurs in \<open>hay\<close> as a contiguous run.\<close>

fun py_in :: "ustring \<Rightarrow> ustring \<Rightarrow> bool" where
  "py_in needle [] = (needle = [])"
| "py_in needle (h # hs) = (prefix needle (h # hs) \<or> py_in needle hs)"

text \<open>
  The table \<open>self.category_keywords\<close>, a dict literal: its items in the order of the
  literal, which is the order a Python dict iterates in. The names and the Korean keywords
  are written as code points.
\<close>

definition cat_ai :: ustring where
  "cat_ai = [65, 73, 32, 44592, 49696]"

definition cat_science :: ustring where
  "cat_science = [44284, 54617, 32, 44592, 49696]"

definition cat_industry :: ustring where
  "cat_industry = [49328, 50629, 32, 46041, 54693]"

definition cat_research :: ustring where
  "cat_research = [50672, 44396, 32, 44060, 48156]"

definition cat_policy :: ustring where
  "cat_policy = [51221, 52293, 32, 48143, 32, 44508, 51228]"

definition cat_other :: ustring where
  "cat_other = [44592, 53440]"

definition keywords_ai :: "ustring list" where
  "keywords_ai =
    [ustr ''AI'', [51064, 44277, 51648, 45733], [47672, 49888, 47084, 45789],
     [46373, 47084, 45789], ustr ''LLM'', ustr ''GPT'', ustr ''ChatGPT'',
     [49373, 49457, 54805], [49888, 44221, 47581], [54617, 49845],
     [50508, 44256, 47532, 51608], [45936, 51060, 53552], [47784, 45944],
     ustr ''transformer'', ustr ''neural'', ustr ''machine learning'', ustr ''deep learning'',
     [50616, 50612, 47784, 45944], ustr ''AGI'', [51088, 50672, 50612, 52376, 47532],
     ustr ''NLP'', [52980, 54504, 53552, 48708, 51204], ustr ''CV'']"

definition keywords_science :: "ustring list" where
  "keywords_science =
    [[44284, 54617], [47932, 47532], [54868, 54617], [49373, 47932], [50864, 51452],
     [52380, 47928], [50577, 51088], [45208, 45432], [49888, 49548, 51116],
     [48148, 51060, 50724], [50976, 51204], ustr ''DNA'', ustr ''RNA'', [45800, 48177, 51656],
     [51077, 51088], [48516, 51088], [50896, 51088], [49892, 54744], [50672, 44396, 49548],
     [48156, 44204], [51032, 54617], [52824, 47308], [51656, 48337], [48177, 49888], [50516],
     [49464, 54252]]"

definition keywords_industry :: "ustring list" where
  "keywords_industry =
    [[44592, 50629], [49884, 51109], [53804, 51088], [47588, 52636], [49688, 51061],
     [51452, 44032], [49345, 51109], ustr ''IPO'', ustr ''M&A'', [51064, 49688],
     [54633, 48337], [49828, 53440, 53944, 50629], [48292, 52376], [49328, 50629],
     [50629, 44228], [48708, 51592, 45768, 49828], [44221, 50689], [51204, 47029],
     ustr ''CEO'', [51228, 54408], [52636, 49884], [49436, 48708, 49828],
     [54540, 47019, 54268]]"

definition keywords_research :: "ustring list" where
  "keywords_research =
    [[50672, 44396], [44060, 48156], [45436, 47928], [51200, 45328], [54617, 54924],
     [48156, 54364], [53945, 54728], [49892, 54744], [53580, 49828, 53944],
     [54532, 47196, 53664, 53440, 51077], ustr ''R&D'', [50672, 44396, 50896], [48149, 49324],
     [45824, 54617], [50672, 44396, 49548], [47017], ustr ''laboratory'', [54785, 49888],
     [44592, 49696, 44060, 48156]]"

definition keywords_policy :: "ustring list" where
  "keywords_policy =
    [[51221, 52293], [44508, 51228], [48277], [48277, 47456], [51221, 48512], [44397, 54924],
     [51032, 54924], [44032, 51060, 46300, 46972, 51064], [51648, 52840], [44508, 51221],
     [51228, 46020], [48277, 50504], [44060, 51221], [54728, 44032], [49849, 51064],
     [51064, 51613], [54364, 51456], [50504, 51204], [48372, 50504]]"

definition category_keywords :: "(ustring \<times> ustring list) list" where
  "category_keywords =
     [(cat_ai, keywords_ai), (cat_science, keywords_science), (cat_industry, keywords_industry),
      (cat_research, keywords_research), (cat_policy, keywords_policy)]"

text \<open>
  The inner loop over the keywords of one category. \<open>lower\<close> is \<open>str.lower\<close>, a
  builtin of Python that is taken as a parameter; \<open>score\<close> is the running score.
\<close>

fun score_keywords ::
  "(ustring \<Rightarrow> ustring) \<Rightarrow> ustring list \<Rightarrow> ustring \<Rightarrow> ustring \<Rightarrow> int \<Rightarrow> int" where
  "score_keywords lower [] title content score = score"
| "score_keywords lower (keyword # keywords) title content score =
     (let score1 = (if py_in (lower keyword) (lower title) then score + 2 else score);
          score2 = (if py_in (lower keyword) (lower content) then score1 + 1 else score1)
      in score_keywords lower keywords title content score2)"

text \<open>
  \<open>max(scores.values())\<close> and \<open>max(scores, key=scores.get)\<close>: \<open>max\<close> raises
  \<open>ValueError\<close> on an empty iterable, and otherwise walks the items keeping the current
  best, which a later item replaces only when it is strictly greater.
\<close>

fun max_loop :: "int list \<Rightarrow> int \<Rightarrow> int" where
  "max_loop [] best = best"
| "max_loop (v # vs) best = (if v > best then max_loop vs v else max_loop vs best)"

fun py_max :: "int list \<Rightarrow> py_error + int" where
  "py_max [] = Inl ValueError"
| "py_max (v # vs) = Inr (max_loop vs v)"

fun max_key_loop :: "('k \<times> int) list \<Rightarrow> 'k \<times> int \<Rightarrow> 'k \<times> int" where
  "max_key_loop [] best = best"
| "max_key_loop (kv # kvs) best =
     (if snd kv > snd best then max_key_loop kvs kv else max_key_loop kvs best)"

fun py_max_key :: "('k \<times> int) list \<Rightarrow> py_error + 'k" where
  "py_max_key [] = Inl ValueError"
| "py_max_key (kv # kvs) = Inr (fst (max_key_loop kvs kv))"

text \<open>
  The dict \<open>scores\<close>, in the order its keys were inserted. The keys of the table are
  distinct, so no entry is overwritten.
\<close>

definition category_scores ::
  "(ustring \<Rightarrow> ustring) \<Rightarrow> ustring \<Rightarrow> ustring \<Rightarrow> (ustring \<times> int) list" where
  "category_scores lower title content =
     map (\<lambda>(category, keywords). (category, score_keywords lower keywords title content 0))
       category_keywords"

text \<open>
  The classifier on \<open>post['title']\<close> and \<open>post['content']\<close>, both strings. The local
  \<open>text\<close> of the source is computed and never read, and the debug log has no effect on the
  result; both are left out.
\<close>

definition classify_category ::
  "(ustring \<Rightarrow> ustring) \<Rightarrow> ustring \<Rightarrow> ustring \<Rightarrow> py_error + ustring" where
  "classify_category lower title content =
     (let scores = category_scores lower title content in
      case py_max (map snd scores) of
        Inl e \<Rightarrow> Inl e
      | Inr m \<Rightarrow> if m > 0 then py_max_key scores else Inr cat_other)"

text \<open>
  The score in the words of the specification: twice the number of the keywords found in
  the title plus the number found in the content, a keyword being found when it occurs as
  a substring once both sides are lowercased.
\<close>

definition spec_score ::
  "(ustring \<Rightarrow> ustring) \<Rightarrow> ustring list \<Rightarrow> ustring \<Rightarrow> ustring \<Rightarrow> int" where
  "spec_score lower keywords title content =
     2 * int (length (filter (\<lambda>k. sublist (lower k) (lower title)) keywords)) +
     int (length (filter (\<lambda>k. sublist (lower k) (lower content)) keywords))"

text \<open>Lowercasing of the ASCII letters, to run the classifier on ASCII and Korean text.\<close>

definition ascii_lower :: "ustring \<Rightarrow> ustring" where
  "ascii_lower s = map (\<lambda>c. if 65 \<le> c \<and> c \<le> 90 then c + 32 else c) s"

section \<open>Dates\<close>

text \<open>
  A \<open>datetime\<close> is naive (a wall-clock reading) or aware (a wall-clock reading with its
  offset from UTC). Readings and offsets are in microseconds; a reading counts from
  0001-01-01 00:00:00, which is \<open>datetime.min\<close>, up to 9999-12-31 23:59:59.999999.
\<close>

datatype pydatetime = Naive int | Aware int int

fun wall :: "pydatetime \<Rightarrow> int" where
  "wall (Naive w) = w"
| "wall (Aware w off) = w"

definition datetime_min :: pydatetime where
  "datetime_min = Naive 0"

definition datetime_max_us :: int where
  "datetime_max_us = 315537897599999999"

definition us_per_day :: int where
  "us_per_day = 86400000000"

text \<open>\<open>d.replace(tzinfo=None)\<close> when \<open>d.tzinfo\<close> is set: the offset is dropped, not applied.\<close>

fun drop_tzinfo :: "pydatetime \<Rightarrow> pydatetime" where
  "drop_tzinfo (Naive w) = Naive w"
| "drop_tzinfo (Aware w off) = Naive w"

text \<open>
  The comparisons of \<open>datetime\<close>: two naive values compare by reading, two aware values
  by instant, and a naive with an aware value raises \<open>TypeError\<close>.
\<close>

fun dt_le :: "pydatetime \<Rightarrow> pydatetime \<Rightarrow> py_error + bool" where
  "dt_le (Naive a) (Naive b) = Inr (a \<le> b)"
| "dt_le (Aware a oa) (Aware b ob) = Inr (a - oa \<le> b - ob)"
| "dt_le _ _ = Inl TypeError"

fun dt_lt :: "pydatetime \<Rightarrow> pydatetime \<Rightarrow> py_error + bool" where
  "dt_lt (Naive a) (Naive b) = Inr (a < b)"
| "dt_lt (Aware a oa) (Aware b ob) = Inr (a - oa < b - ob)"
| "dt_lt _ _ = Inl TypeError"

text \<open>
  \<open>d - timedelta(days=n)\<close>: \<open>timedelta\<close> takes at most 999999999 days either way, and
  the difference must stay within the range of \<open>datetime\<close>; both raise \<open>OverflowError\<close>.
\<close>

fun sub_days :: "pydatetime \<Rightarrow> int \<Rightarrow> py_error + pydatetime" where
  "sub_days d n =
     (if n < - 999999999 \<or> 999999999 < n then Inl OverflowError
      else
        let w = wall d - n * us_per_day in
        if w < 0 \<or> datetime_max_us < w then Inl OverflowError
        else Inr (case d of Naive _ \<Rightarrow> Naive w | Aware _ off \<Rightarrow> Aware w off))"

text \<open>\<open>a - b\<close> on two datetimes, as a number of microseconds.\<close>

fun dt_diff :: "pydatetime \<Rightarrow> pydatetime \<Rightarrow> py_error + int" where
  "dt_diff (Naive a) (Naive b) = Inr (a - b)"
| "dt_diff (Aware a oa) (Aware b ob) = Inr ((a - oa) - (b - ob))"
| "dt_diff _ _ = Inl TypeError"

section \<open>The feed collector: \<open>NaverBlogCollector\<close> (scripts/collector.py)\<close>

text \<open>
  An entry of the feed as \<open>_fetch_rss_feed\<close> builds it: the four keys are always
  present (\<open>title\<close>, \<open>link\<close>, \<open>published\<close>, \<open>summary\<close>), with the empty string for
  what the feed does not give.
\<close>

record feed_post =
  rss_title :: ustring
  rss_link :: ustring
  rss_published :: ustring
  rss_summary :: ustring

text \<open>
  The chained comparison \<open>cutoff_date <= post_date <= base_date\<close>: the second comparison
  is made only when the first holds.
\<close>

definition in_window :: "pydatetime \<Rightarrow> pydatetime \<Rightarrow> pydatetime \<Rightarrow> py_error + bool" where
  "in_window cutoff_date post_date base_date =
     (case dt_le cutoff_date post_date of
        Inl e \<Rightarrow> Inl e
      | Inr False \<Rightarrow> Inr False
      | Inr True \<Rightarrow> dt_le post_date base_date)"

text \<open>
  The loop of \<open>_filter_recent_posts\<close>. \<open>parse\<close> is \<open>dateutil.parser.parse\<close>, taken as
  a parameter. A post whose \<open>published\<close> is empty fails the test
  \<open>if post['published']\<close> and the loop moves on without appending it; an exception in the
  \<open>try\<close> block, from the parser or from a comparison, appends the post.
\<close>

fun filter_loop ::
  "(ustring \<Rightarrow> py_error + pydatetime) \<Rightarrow> pydatetime \<Rightarrow> pydatetime \<Rightarrow>
   feed_post list \<Rightarrow> feed_post list" where
  "filter_loop parse cutoff_date base_date [] = []"
| "filter_loop parse cutoff_date base_date (post # posts) =
     (let rest = filter_loop parse cutoff_date base_date posts in
      if rss_published post = [] then rest
      else
        case parse (rss_published post) of
          Inl e \<Rightarrow> post # rest
        | Inr parsed \<Rightarrow>
            (case in_window cutoff_date (drop_tzinfo parsed) base_date of
               Inl e \<Rightarrow> post # rest
             | Inr True \<Rightarrow> post # rest
             | Inr False \<Rightarrow> rest))"

text \<open>
  \<open>_filter_recent_posts\<close>: \<open>days_lookback\<close> is the configured window,
  \<open>reference_date\<close> the optional argument and \<open>now\<close> the reading of
  \<open>datetime.now()\<close>. The subtraction is outside the \<open>try\<close> block.
\<close>

definition filter_recent_posts ::
  "(ustring \<Rightarrow> py_error + pydatetime) \<Rightarrow> int \<Rightarrow> pydatetime option \<Rightarrow> pydatetime \<Rightarrow>
   feed_post list \<Rightarrow> py_error + feed_post list" where
  "filter_recent_posts parse days_lookback reference_date now posts =
     (let base_date = (case reference_date of Some d \<Rightarrow> d | None \<Rightarrow> now) in
      case sub_days base_date days_lookback of
        Inl e \<Rightarrow> Inl e
      | Inr cutoff_date \<Rightarrow> Inr (filter_loop parse cutoff_date base_date posts))"

text \<open>\<open>xs[:n]\<close>: a negative \<open>n\<close> counts from the end.\<close>

definition py_take :: "int \<Rightarrow> 'a list \<Rightarrow> 'a list" where
  "py_take n xs = (if 0 \<le> n then take (nat n) xs else take (length xs - nat (- n)) xs)"

text \<open>
  What \<open>_scrape_post_detail\<close> reads from a fetched and parsed page: the text of the
  \<open>div\<close> of class \<open>se-main-container\<close>, of the \<open>div\<close> with id \<open>postViewArea\<close> and of the
  \<open>div\<close> of class \<open>post-view\<close>, each \<open>None\<close> when the page has no such element.
\<close>

record page =
  se_main_container :: "ustring option"
  post_view_area :: "ustring option"
  post_view :: "ustring option"

text \<open>The dict that \<open>_scrape_post_detail\<close> returns.\<close>

record detailed_post =
  post_title :: ustring
  post_link :: ustring
  post_published :: ustring
  post_content :: ustring
  post_collected_at :: ustring

text \<open>
  \<open>_scrape_post_detail\<close>. \<open>fetch\<close> stands for the request, \<open>raise_for_status\<close> and
  the HTML parser: it gives the page or the exception raised. \<open>now_iso\<close> is
  \<open>datetime.now().isoformat()\<close>. The whole body is in a \<open>try\<close> block whose handler
  returns the feed's data with the feed's summary as content, so the function always
  returns a dict.
\<close>

definition scrape_post_detail ::
  "(ustring \<Rightarrow> py_error + page) \<Rightarrow> ustring \<Rightarrow> feed_post \<Rightarrow> detailed_post" where
  "scrape_post_detail fetch now_iso post =
     (case fetch (rss_link post) of
        Inl e \<Rightarrow>
          \<lparr>post_title = rss_title post, post_link = rss_link post,
           post_published = rss_published post, post_content = rss_summary post,
           post_collected_at = now_iso\<rparr>
      | Inr soup \<Rightarrow>
          let content1 = (case se_main_container soup of Some t \<Rightarrow> t | None \<Rightarrow> []);
              content2 =
                (if content1 = [] then
                   (case (case post_view_area soup of Some t \<Rightarrow> Some t | None \<Rightarrow> post_view soup) of
                      Some t \<Rightarrow> t
                    | None \<Rightarrow> content1)
                 else content1);
              content3 = (if content2 = [] then rss_summary post else content2)
          in \<lparr>post_title = rss_title post, post_link = rss_link post,
              post_published = rss_published post, post_content = take 5000 content3,
              post_collected_at = now_iso\<rparr>)"

text \<open>
  The loop of \<open>collect_posts\<close> over the candidates; \<open>clock i\<close> is the reading of the
  clock at candidate \<open>i\<close>. The dict that \<open>_scrape_post_detail\<close> returns is not empty, so
  the test \<open>if detailed_post\<close> holds and the post is appended. The handler of the loop
  (\<open>continue\<close>) would skip a candidate, but nothing in its \<open>try\<close> block raises:
  \<open>_scrape_post_detail\<close> handles its own exceptions.
\<close>

fun collect_details ::
  "(ustring \<Rightarrow> py_error + page) \<Rightarrow> (nat \<Rightarrow> ustring) \<Rightarrow> nat \<Rightarrow> feed_post list \<Rightarrow>
   detailed_post list" where
  "collect_details fetch clock i [] = []"
| "collect_details fetch clock i (post # posts) =
     scrape_post_detail fetch (clock i) post # collect_details fetch clock (Suc i) posts"

text \<open>
  \<open>collect_posts\<close> on the entries \<open>rss_posts\<close> that \<open>_fetch_rss_feed\<close> returned (none
  when the feed could not be read). \<open>save\<close> is \<open>_save_collected_data\<close>, which writes a
  file and may raise.
\<close>

definition collect_posts ::
  "(ustring \<Rightarrow> py_error + pydatetime) \<Rightarrow> (ustring \<Rightarrow> py_error + page) \<Rightarrow> (nat \<Rightarrow> ustring) \<Rightarrow>
   (detailed_post list \<Rightarrow> py_error + unit) \<Rightarrow> int \<Rightarrow> int \<Rightarrow> pydatetime option \<Rightarrow> pydatetime \<Rightarrow>
   feed_post list \<Rightarrow> py_error + detailed_post list" where
  "collect_posts parse fetch clock save max_posts days_lookback reference_date now rss_posts =
     (case filter_recent_posts parse days_lookback reference_date now rss_posts of
        Inl e \<Rightarrow> Inl e
      | Inr recent_posts \<Rightarrow>
          let detailed_posts = collect_details fetch clock 0 (py_take max_posts recent_posts) in
          case save detailed_posts of
            Inl e \<Rightarrow> Inl e
          | Inr u \<Rightarrow> Inr detailed_posts)"

section \<open>The orchestrator: \<open>MultiSourceCollector.collect_all_sources\<close> (scripts/multi_source_collector.py)\<close>

text \<open>
  A post as the orchestrator sees it: the dict that a collector returned (\<open>src_body\<close>, of
  whatever shape the collector gives it) and the three keys that the orchestrator reads or
  writes, each absent (\<open>None\<close>) or present. \<open>src_source\<close> is the key \<open>source\<close>.
\<close>

record 'a source_post =
  src_body :: 'a
  src_source :: "ustring option"
  data_source :: "ustring option"
  source_display_name :: "ustring option"

text \<open>\<open>source_config.get('name', source_name)\<close>, with \<open>names\<close> the configured names.\<close>

definition display_name :: "(ustring \<Rightarrow> ustring option) \<Rightarrow> ustring \<Rightarrow> ustring" where
  "display_name names source_name = (case names source_name of Some n \<Rightarrow> n | None \<Rightarrow> source_name)"

text \<open>The body of the inner loop: the three assignments to one post.\<close>

definition stamp :: "ustring \<Rightarrow> ustring \<Rightarrow> 'a source_post \<Rightarrow> 'a source_post" where
  "stamp source_name source_display post =
     post\<lparr>data_source := Some source_name,
          source_display_name := Some source_display,
          src_source := (case src_source post of None \<Rightarrow> Some source_display | Some s \<Rightarrow> Some s)\<rparr>"

text \<open>
  The loop over \<open>self.collectors.items()\<close>. Each collector is called once, so a run is given
  by the list of the source names, in the order of the dict, each with what its
  \<open>collect_posts\<close> returned or raised. The state is \<open>all_posts\<close> and \<open>source_stats\<close>.
\<close>

fun collect_loop ::
  "(ustring \<Rightarrow> ustring option) \<Rightarrow> (ustring \<times> (py_error + 'a source_post list)) list \<Rightarrow>
   'a source_post list \<times> (ustring \<rightharpoonup> int) \<Rightarrow> 'a source_post list \<times> (ustring \<rightharpoonup> int)" where
  "collect_loop names [] state = state"
| "collect_loop names ((source_name, result) # rest) (all_posts, source_stats) =
     (case result of
        Inl e \<Rightarrow> collect_loop names rest (all_posts, source_stats(source_name \<mapsto> 0))
      | Inr posts \<Rightarrow>
          collect_loop names rest
            (all_posts @ map (stamp source_name (display_name names source_name)) posts,
             source_stats(source_name \<mapsto> int (length posts))))"

text \<open>
  \<open>collect_all_sources\<close>: the loop, then \<open>_save_combined_results\<close> (\<open>save\<close>, which writes
  a file and may raise), then the posts.
\<close>

definition collect_all_sources ::
  "(ustring \<Rightarrow> ustring option) \<Rightarrow> (ustring \<times> (py_error + 'a source_post list)) list \<Rightarrow>
   ('a source_post list \<times> (ustring \<rightharpoonup> int) \<Rightarrow> py_error + unit) \<Rightarrow>
   py_error + 'a source_post list" where
  "collect_all_sources names runs save =
     (let state = collect_loop names runs ([], Map.empty) in
      case save state of
        Inl e \<Rightarrow> Inl e
      | Inr u \<Rightarrow> Inr (fst state))"

text \<open>What one source adds to the aggregate, and the count recorded for it.\<close>

definition contribution ::
  "(ustring \<Rightarrow> ustring option) \<Rightarrow> ustring \<times> (py_error + 'a source_post list) \<Rightarrow> 'a source_post list" where
  "contribution names run =
     (case snd run of
        Inl e \<Rightarrow> []
      | Inr posts \<Rightarrow> map (stamp (fst run) (display_name names (fst run))) posts)"

definition recorded_count :: "py_error + 'a source_post list \<Rightarrow> int" where
  "recorded_count result = (case result of Inl e \<Rightarrow> 0 | Inr posts \<Rightarrow> int (length posts))"

section \<open>The URL cache: \<open>AjunewsCollector._load_or_generate_url_list\<close> (scripts/ajunews_collector.py)\<close>

text \<open>The list \<open>self.known_urls\<close> of the constructor.\<close>

definition known_urls :: "ustring list" where
  "known_urls =
     [ustr ''https://www.ajunews.com/view/20251217160834163'',
      ustr ''https://www.ajunews.com/view/20251124072337005'',
      ustr ''https://www.ajunews.com/view/20250925081655847'',
      ustr ''https://www.ajunews.com/view/20251020092112653'',
      ustr ''https://www.ajunews.com/view/20250825082808870'',
      ustr ''https://www.ajunews.com/view/20250716103132938'',
      ustr ''https://www.ajunews.com/view/20250514085620201'',
      ustr ''https://www.ajunews.com/view/20250114095600305'']"

text \<open>
  The cache file as the function meets it: absent (\<open>os.path.exists\<close> is false), present
  but not loadable as a JSON object (opening or \<open>json.load\<close> raises, or the value has no
  \<open>get\<close>), or a JSON object, of which the function reads the keys \<open>updated\<close> and
  \<open>urls\<close>, each present or not.
\<close>

datatype cache_file = NoFile | Unreadable | CacheDict "ustring option" "ustring list option"

text \<open>Which of the two log lines the function writes: the cached or the default list.\<close>

datatype url_list_used = CachedList | DefaultList

text \<open>
  \<open>fromisoformat\<close> is \<open>datetime.fromisoformat\<close>, taken as a parameter, and \<open>now\<close> the
  reading of \<open>datetime.now()\<close>, a naive datetime. Every exception inside the \<open>try\<close>
  block, and a cache that is a day old or older, fall through to the default list.
\<close>

definition load_or_generate_url_list ::
  "(ustring \<Rightarrow> py_error + pydatetime) \<Rightarrow> int \<Rightarrow> cache_file \<Rightarrow> url_list_used \<times> ustring list" where
  "load_or_generate_url_list fromisoformat now cache_file =
     (case cache_file of
        NoFile \<Rightarrow> (DefaultList, known_urls)
      | Unreadable \<Rightarrow> (DefaultList, known_urls)
      | CacheDict updated urls \<Rightarrow>
          (case fromisoformat (case updated of Some u \<Rightarrow> u | None \<Rightarrow> ustr ''2000-01-01'') of
             Inl e \<Rightarrow> (DefaultList, known_urls)
           | Inr cache_date \<Rightarrow>
               (case dt_diff (Naive now) cache_date of
                  Inl e \<Rightarrow> (DefaultList, known_urls)
                | Inr age \<Rightarrow>
                    if age < 1 * us_per_day
                    then (CachedList, (case urls of Some us \<Rightarrow> us | None \<Rightarrow> known_urls))
                    else (DefaultList, known_urls))))"

section \<open>The column test: \<open>AjunewsCollector._is_now_future_column\<close> (scripts/ajunews_collector.py)\<close>

text \<open>
  The three patterns are made of literal characters and of \<open>\s*\<close>. Under
  \<open>re.IGNORECASE\<close> a literal matches a character with the same lowercase form; for the
  characters of these patterns (Korean syllables, brackets, the ampersand and the letters of
  \<open>Now\<close> and \<open>Future\<close>) that is equality up to the case of an ASCII letter.
\<close>

datatype re_item = Lit nat | Spaces

definition lower_char :: "nat \<Rightarrow> nat" where
  "lower_char c = (if 65 \<le> c \<and> c \<le> 90 then c + 32 else c)"

definition ci_eq :: "nat \<Rightarrow> nat \<Rightarrow> bool" where
  "ci_eq c x \<longleftrightarrow> lower_char c = lower_char x"

definition lits :: "ustring \<Rightarrow> re_item list" where
  "lits s = map Lit s"

text \<open>Whether the pattern matches at the start of the text, by backtracking.\<close>

fun match_here :: "re_item list \<Rightarrow> ustring \<Rightarrow> bool" where
  "match_here [] s = True"
| "match_here (Lit c # ps) [] = False"
| "match_here (Lit c # ps) (x # xs) = (if ci_eq c x then match_here ps xs else False)"
| "match_here (Spaces # ps) [] = match_here ps []"
| "match_here (Spaces # ps) (x # xs) =
     (if match_here ps (x # xs) then True
      else if is_space x then match_here (Spaces # ps) xs else False)"

text \<open>\<open>re.search(pattern, s, re.IGNORECASE)\<close> as a truth value: a match at some position.\<close>

fun re_search :: "re_item list \<Rightarrow> ustring \<Rightarrow> bool" where
  "re_search ps [] = match_here ps []"
| "re_search ps (x # xs) = (if match_here ps (x # xs) then True else re_search ps xs)"

text \<open>
  The name of the columnist (four Korean syllables, as code points) and the three patterns,
  in the order of the list \<open>patterns\<close>: bracketed with \<open>Now&Future\<close> in one piece,
  bracketed with optional whitespace around the ampersand, and without brackets. The
  ampersand of all three is the ASCII one (code point 38).
\<close>

definition columnist :: ustring where
  "columnist = [44285, 51116, 50896, 51032]"

definition patterns :: "re_item list list" where
  "patterns =
     [lits (ustr ''['' @ columnist) @ [Spaces] @ lits (ustr ''Now&Future]''),
      lits (ustr ''['' @ columnist) @ [Spaces] @ lits (ustr ''Now'') @ [Spaces] @ lits (ustr ''&'') @
        [Spaces] @ lits (ustr ''Future]''),
      lits columnist @ [Spaces] @ lits (ustr ''Now&Future'')]"

text \<open>The loop over the patterns: true at the first pattern that is found in the title.\<close>

fun any_pattern :: "re_item list list \<Rightarrow> ustring \<Rightarrow> bool" where
  "any_pattern [] title = False"
| "any_pattern (pattern # rest) title = (if re_search pattern title then True else any_pattern rest title)"

definition is_now_future_column :: "ustring \<Rightarrow> bool" where
  "is_now_future_column title = any_pattern patterns title"

text \<open>
  What a pattern matches, stated without the matcher: a literal matches one character up
  to case, \<open>\s*\<close> matches any run of whitespace, and a pattern matches the concatenation
  of what its items match.
\<close>

inductive matches :: "re_item list \<Rightarrow> ustring \<Rightarrow> bool" where
  matches_Nil: "matches [] []"
| matches_Lit: "ci_eq c x \<Longrightarrow> matches ps m \<Longrightarrow> matches (Lit c # ps) (x # m)"
| matches_Spaces: "\<forall>w\<in>set ws. is_space w \<Longrightarrow> matches ps m \<Longrightarrow> matches (Spaces # ps) (ws @ m)"

text \<open>Equality of two texts up to the case of ASCII letters.\<close>

definition same_ignoring_case :: "ustring \<Rightarrow> ustring \<Rightarrow> bool" where
  "same_ignoring_case a b \<longleftrightarrow> map lower_char a = map lower_char b"

text \<open>
  The two shapes of the marker, in words. Plain: the name of the columnist, any run of
  whitespace, \<open>Now&Future\<close>. Bracketed with spaces: an opening bracket and the name, any
  run of whitespace, \<open>Now\<close>, any run of whitespace, the ASCII ampersand, any run of
  whitespace, \<open>Future\<close> and a closing bracket. Letters are compared ignoring case.
\<close>

definition plain_marker :: "ustring \<Rightarrow> bool" where
  "plain_marker m \<longleftrightarrow>
     (\<exists>k ws n. m = k @ ws @ n \<and> same_ignoring_case columnist k \<and> list_all is_space ws \<and>
        same_ignoring_case (ustr ''Now&Future'') n)"

definition spaced_bracketed_marker :: "ustring \<Rightarrow> bool" where
  "spaced_bracketed_marker m \<longleftrightarrow>
     (\<exists>k w1 n w2 w3 f. m = k @ w1 @ n @ w2 @ [38] @ w3 @ f \<and>
        same_ignoring_case (ustr ''['' @ columnist) k \<and> list_all is_space w1 \<and>
        same_ignoring_case (ustr ''Now'') n \<and> list_all is_space w2 \<and> list_all is_space w3 \<and>
        same_ignoring_case (ustr ''Future]'') f)"

section \<open>The cached-URL collector: \<open>AjunewsCollector.collect_posts\<close> (scripts/ajunews_collector.py)\<close>

text \<open>
  What \<open>_scrape_article\<close> extracts from a fetched and parsed page: the results of
  \<open>_extract_title\<close>, \<open>_extract_date\<close>, \<open>_extract_tags\<close> and \<open>_extract_content\<close>.
\<close>

record article_page =
  page_title :: ustring
  page_published :: ustring
  page_tags :: "ustring list"
  page_content :: ustring

text \<open>
  The dict that \<open>_scrape_article\<close> returns, with the keys \<open>title\<close>, \<open>url\<close>,
  \<open>author\<close>, \<open>published\<close>, \<open>tags\<close>, \<open>content\<close> and \<open>source\<close>.
\<close>

record article =
  art_title :: ustring
  art_url :: ustring
  art_author :: ustring
  art_published :: ustring
  art_tags :: "ustring list"
  art_content :: ustring
  art_source :: ustring

text \<open>The two string constants of \<open>_scrape_article\<close>: the author and the source, as code points.\<close>

definition author_name :: ustring where
  "author_name = [44285, 51116, 50896]"

definition source_name_aju :: ustring where
  "source_name_aju =
     [44285, 51116, 50896, 51032, 32, 78, 111, 119, 38, 70, 117, 116, 117, 114, 101, 32, 40, 50500, 51452, 44221, 51228, 41]"

text \<open>
  \<open>_scrape_article\<close>. \<open>fetch\<close> stands for the request, \<open>raise_for_status\<close> and the
  extraction from the parsed page; its exceptions are not caught here. A page whose title
  fails the column test gives \<open>None\<close>.
\<close>

definition scrape_article ::
  "(ustring \<Rightarrow> py_error + article_page) \<Rightarrow> ustring \<Rightarrow> py_error + article option" where
  "scrape_article fetch url =
     (case fetch url of
        Inl e \<Rightarrow> Inl e
      | Inr soup \<Rightarrow>
          if \<not> is_now_future_column (page_title soup) then Inr None
          else Inr (Some \<lparr>art_title = page_title soup, art_url = url, art_author = author_name,
                           art_published = page_published soup, art_tags = page_tags soup,
                           art_content = page_content soup, art_source = source_name_aju\<rparr>))"

text \<open>\<open>s.replace('Z', '+00:00')\<close>\<close>

fun replace_Z :: "ustring \<Rightarrow> ustring" where
  "replace_Z [] = []"
| "replace_Z (c # cs) = (if c = 90 then ustr ''+00:00'' @ replace_Z cs else c # replace_Z cs)"

text \<open>
  \<open>_is_valid_post\<close>. \<open>parse_year\<close> is \<open>datetime.fromisoformat(s).year\<close>, taken as a
  parameter. An empty \<open>published\<close> and a date that does not parse both fall through to
  \<open>return True\<close>.
\<close>

definition is_valid_post :: "(ustring \<Rightarrow> py_error + int) \<Rightarrow> int \<Rightarrow> article \<Rightarrow> bool" where
  "is_valid_post parse_year year_filter post =
     (if art_published post = [] then True
      else
        case parse_year (replace_Z (art_published post)) of
          Inl e \<Rightarrow> True
        | Inr year \<Rightarrow> year = year_filter)"

text \<open>
  The loop of \<open>collect_posts\<close>. The state is the list \<open>posts\<close> and, to say which URLs
  were requested, the list of the URLs passed to \<open>_scrape_article\<close> so far. An exception
  of the scraping moves on to the next URL (\<open>continue\<close>); the loop stops (\<open>break\<close>) as
  soon as \<open>len(posts) >= self.max_posts\<close> after an accepted post.
\<close>

fun scrape_loop ::
  "(ustring \<Rightarrow> py_error + article_page) \<Rightarrow> (ustring \<Rightarrow> py_error + int) \<Rightarrow> int \<Rightarrow> int \<Rightarrow>
   ustring list \<Rightarrow> article list \<times> ustring list \<Rightarrow> article list \<times> ustring list" where
  "scrape_loop fetch parse_year year_filter max_posts [] state = state"
| "scrape_loop fetch parse_year year_filter max_posts (url # urls) (posts, fetched) =
     (case scrape_article fetch url of
        Inl e \<Rightarrow> scrape_loop fetch parse_year year_filter max_posts urls (posts, fetched @ [url])
      | Inr None \<Rightarrow> scrape_loop fetch parse_year year_filter max_posts urls (posts, fetched @ [url])
      | Inr (Some post) \<Rightarrow>
          if is_valid_post parse_year year_filter post then
            (if int (length (posts @ [post])) \<ge> max_posts then (posts @ [post], fetched @ [url])
             else scrape_loop fetch parse_year year_filter max_posts urls
                    (posts @ [post], fetched @ [url]))
          else scrape_loop fetch parse_year year_filter max_posts urls (posts, fetched @ [url]))"

text \<open>
  The run of the loop in \<open>collect_posts\<close> on \<open>url_list[:self.max_posts * 2]\<close>, from no
  posts and no requests.
\<close>

definition scrape_candidates ::
  "(ustring \<Rightarrow> py_error + article_page) \<Rightarrow> (ustring \<Rightarrow> py_error + int) \<Rightarrow> int \<Rightarrow> int \<Rightarrow>
   ustring list \<Rightarrow> article list \<times> ustring list" where
  "scrape_candidates fetch parse_year year_filter max_posts url_list =
     scrape_loop fetch parse_year year_filter max_posts (py_take (max_posts * 2) url_list) ([], [])"

text \<open>
  \<open>collect_posts\<close> of the cached-URL collector, on the list \<open>url_list\<close> that
  \<open>_load_or_generate_url_list\<close> returned. \<open>save\<close> is \<open>_save_posts\<close>, which writes a file
  and may raise.
\<close>

definition collect_posts_aju ::
  "(ustring \<Rightarrow> py_error + article_page) \<Rightarrow> (ustring \<Rightarrow> py_error + int) \<Rightarrow>
   (article list \<Rightarrow> py_error + unit) \<Rightarrow> int \<Rightarrow> int \<Rightarrow> ustring list \<Rightarrow> py_error + article list" where
  "collect_posts_aju fetch parse_year save year_filter max_posts url_list =
     (let posts = fst (scrape_candidates fetch parse_year year_filter max_posts url_list) in
      case save posts of
        Inl e \<Rightarrow> Inl e
      | Inr u \<Rightarrow> Inr posts)"

section \<open>The report: \<open>ReportGenerator._create_report_content\<close> (scripts/report_generator.py)\<close>

text \<open>
  A post as the report reads it: the keys \<open>title\<close>, \<open>summary\<close> and \<open>link\<close>, and the key
  \<open>published\<close>, which is read with \<open>get\<close> and so may be absent.
\<close>

record report_post =
  rp_title :: ustring
  rp_published :: "ustring option"
  rp_summary :: ustring
  rp_link :: ustring

text \<open>\<open>p.get('published', '')\<close>\<close>

definition published_or_empty :: "report_post \<Rightarrow> ustring" where
  "published_or_empty p = (case rp_published p of None \<Rightarrow> [] | Some s \<Rightarrow> s)"

text \<open>
  \<open>_parse_date\<close>: the parsed date, or \<open>datetime.min\<close> when the parser raises. The
  parsed date is returned as it is, naive or aware.
\<close>

definition parse_date :: "(ustring \<Rightarrow> py_error + pydatetime) \<Rightarrow> ustring \<Rightarrow> pydatetime" where
  "parse_date parse date_str = (case parse date_str of Inl e \<Rightarrow> datetime_min | Inr d \<Rightarrow> d)"

text \<open>
  \<open>sorted(xs, key=..., reverse=True)\<close> on the list of the keys paired with their items.
  \<open>sorted\<close> compares keys with \<open><\<close> only, is stable also when reversed (items with
  equal keys keep their order), and lets an exception of a comparison through. It is
  written here as an insertion sort from the right: an item is placed before the first item
  that its key is not less than. The result is that of any stable sort, and a comparison of
  a naive with an aware key is made, and raises, exactly when the list has keys of both
  kinds.
\<close>

fun insert_desc ::
  "pydatetime \<times> 'a \<Rightarrow> (pydatetime \<times> 'a) list \<Rightarrow> py_error + (pydatetime \<times> 'a) list" where
  "insert_desc x [] = Inr [x]"
| "insert_desc x (y # ys) =
     (case dt_lt (fst x) (fst y) of
        Inl e \<Rightarrow> Inl e
      | Inr True \<Rightarrow> (case insert_desc x ys of Inl e \<Rightarrow> Inl e | Inr r \<Rightarrow> Inr (y # r))
      | Inr False \<Rightarrow> Inr (x # y # ys))"

fun sorted_desc :: "(pydatetime \<times> 'a) list \<Rightarrow> py_error + (pydatetime \<times> 'a) list" where
  "sorted_desc [] = Inr []"
| "sorted_desc (x # xs) = (case sorted_desc xs of Inl e \<Rightarrow> Inl e | Inr r \<Rightarrow> insert_desc x r)"

text \<open>The posts of one category in the order of the report.\<close>

definition sort_posts ::
  "(ustring \<Rightarrow> py_error + pydatetime) \<Rightarrow> report_post list \<Rightarrow> py_error + report_post list" where
  "sort_posts parse posts =
     (case sorted_desc (map (\<lambda>p. (parse_date parse (published_or_empty p), p)) posts) of
        Inl e \<Rightarrow> Inl e
      | Inr keyed \<Rightarrow> Inr (map snd keyed))"

text \<open>
  The list \<open>category_order\<close> and the list \<open>sorted_categories\<close> built from it. The dict
  \<open>categorized_posts\<close> is the list of its items in the order of insertion.
\<close>

definition category_order :: "ustring list" where
  "category_order = [cat_ai, cat_science, cat_research, cat_industry, cat_policy, cat_other]"

definition sorted_categories :: "(ustring \<times> report_post list) list \<Rightarrow> ustring list" where
  "sorted_categories categorized_posts =
     filter (\<lambda>cat. cat \<in> set (map fst categorized_posts)) category_order @
     filter (\<lambda>cat. cat \<notin> set category_order) (map fst categorized_posts)"

text \<open>
  The loop over \<open>sorted_categories\<close>. For each category that has posts the report gets
  a heading and then one entry for each post of \<open>sorted_posts\<close>, in that order; the value
  here is that sequence of sections, each the category with its posts as listed. A category
  without posts is passed over. An exception of the sort ends the function.
\<close>

fun report_sections ::
  "(ustring \<Rightarrow> py_error + pydatetime) \<Rightarrow> (ustring \<times> report_post list) list \<Rightarrow> ustring list \<Rightarrow>
   py_error + (ustring \<times> report_post list) list" where
  "report_sections parse categorized_posts [] = Inr []"
| "report_sections parse categorized_posts (category # rest) =
     (case map_of categorized_posts category of
        None \<Rightarrow> Inl KeyError
      | Some posts \<Rightarrow>
          if posts = [] then report_sections parse categorized_posts rest
          else
            case sort_posts parse posts of
              Inl e \<Rightarrow> Inl e
            | Inr sorted_posts \<Rightarrow>
                (case report_sections parse categorized_posts rest of
                   Inl e \<Rightarrow> Inl e
                 | Inr sections \<Rightarrow> Inr ((category, sorted_posts) # sections)))"

definition report_body ::
  "(ustring \<Rightarrow> py_error + pydatetime) \<Rightarrow> (ustring \<times> report_post list) list \<Rightarrow>
   py_error + (ustring \<times> report_post list) list" where
  "report_body parse categorized_posts =
     report_sections parse categorized_posts (sorted_categories categorized_posts)"

text \<open>
  The values of \<open>dateutil.parser.parse\<close> on the two strings used below: a date of a
  feed with its offset from UTC, which parses to an aware datetime (2026-01-05 09:00:00 at
  +09:00), and a text that is no date, on which the parser raises.
\<close>

definition sample_parse :: "ustring \<Rightarrow> py_error + pydatetime" where
  "sample_parse s =
     (if s = ustr ''Mon, 05 Jan 2026 09:00:00 +0900''
      then Inr (Aware 63903200400000000 32400000000)
      else Inl ParserError)"

text \<open>
  To state what the sort returns: whether a datetime is naive, and the value two datetimes
  of one kind are compared by (the reading of a naive one, the instant of an aware one).
\<close>

fun is_naive :: "pydatetime \<Rightarrow> bool" where
  "is_naive (Naive w) = True"
| "is_naive (Aware w off) = False"

fun instant :: "pydatetime \<Rightarrow> int" where
  "instant (Naive w) = w"
| "instant (Aware w off) = w - off"

section \<open>Results\<close>

subsection \<open>The summarizer\<close>

lemma terminal_not_space: "is_terminal c \<Longrightarrow> \<not> is_space c"
  by (auto simp: is_terminal_def is_space_def)

lemma split_sentences_no_break: "\<not> has_break a \<Longrightarrow> split_sentences a = [a]"
proof (induction a)
  case Nil
  then show ?case by simp
next
  case (Cons c a')
  have nb: "\<not> has_break a'" using Cons.prems by (cases a') auto
  have "\<not> (is_terminal c \<and> starts_with_space a')"
    using Cons.prems by (cases a') auto
  then show ?case using Cons.IH[OF nb] by auto
qed

lemma dropWhile_spaces:
  "\<forall>w\<in>set ws. is_space w \<Longrightarrow> \<not> starts_with_space b \<Longrightarrow> dropWhile is_space (ws @ b) = b"
  by (induction ws) (auto simp: neq_Nil_conv elim: starts_with_space.elims)

lemma split_sentences_break_first:
  assumes "is_terminal t" "ws \<noteq> []" "\<forall>w\<in>set ws. is_space w" "\<not> starts_with_space b"
  shows "split_sentences (t # ws @ b) = [] # split_sentences b"
proof -
  obtain w ws' where ws: "ws = w # ws'" using assms(2) by (cases ws) auto
  have "dropWhile is_space (ws @ b) = b" using dropWhile_spaces[OF assms(3,4)] .
  then show ?thesis using assms(1,3) ws by auto
qed

lemma split_sentences_at_break:
  assumes "\<not> has_break a" "is_terminal t" "ws \<noteq> []" "\<forall>w\<in>set ws. is_space w"
    "\<not> starts_with_space b"
  shows "split_sentences (a @ t # ws @ b) = a # split_sentences b"
  using assms(1)
proof (induction a)
  case Nil
  show ?case using split_sentences_break_first[OF assms(2-5)] by simp
next
  case (Cons c a')
  have nb: "\<not> has_break a'" using Cons.prems by (cases a') auto
  have "\<not> (is_terminal c \<and> starts_with_space (a' @ t # ws @ b))"
    using Cons.prems assms(2) terminal_not_space by (cases a') auto
  then show ?case using Cons.IH[OF nb] by auto
qed

lemma no_break_replicate: "\<not> has_break (replicate n 97)"
proof (induction n)
  case 0
  then show ?case by simp
next
  case (Suc n)
  then show ?case by (cases n) (auto simp: is_terminal_def)
qed

lemma strip_replicate: "strip (replicate n 97) = replicate n 97"
proof (cases n)
  case 0
  then show ?thesis by (simp add: strip_def)
next
  case (Suc m)
  have "\<not> is_space 97" by (simp add: is_space_def)
  then have "dropWhile is_space (replicate (Suc m) 97) = replicate (Suc m) 97"
    by simp
  then show ?thesis using Suc by (simp add: strip_def del: replicate_Suc)
qed

lemma take5_Cons2: "take 5 (a # b # xs) = a # b # take 3 xs"
  by (simp add: numeral_eq_Suc)

lemma surviving_sentences_threshold:
  "surviving_sentences content =
     map strip (filter (\<lambda>s. 11 \<le> length (strip s)) (split_sentences content))"
proof -
  have "\<And>n::nat. (10 < n) = (11 \<le> n)" by arith
  then show ?thesis by (simp add: surviving_sentences_def)
qed

lemma create_simple_summary_closed_form:
  "create_simple_summary (Some content) =
    (if content = [] then placeholder else
     case surviving_sentences content of
       [] \<Rightarrow> truncated content
     | [s1] \<Rightarrow> if length s1 > 300 then truncated content else s1 @ ustr ''.''
     | s1 # s2 # _ \<Rightarrow>
         if length s1 > 300 then truncated content
         else if length s1 + length s2 > 300 then s1 @ ustr ''.''
         else s1 @ ustr ''. '' @ s2 @ ustr ''.'')"
  by (auto simp: create_simple_summary_def Let_def take5_Cons2 split: list.splits)

text \<open>
  C4 (as stated, refuted). The claim lets a sentence of exactly 10 characters survive, takes
  the raw first 200 characters for the fallback, and joins whatever was accumulated. The
  code keeps a sentence only when its trimmed length exceeds 10, trims the 200-character
  prefix before the ellipsis is appended, and falls back to that truncation when the first
  surviving sentence alone is longer than 300 characters.
\<close>

theorem create_simple_summary_counterexample:
  "length (ustr ''0123456789'') = 10 \<and>
   split_sentences (ustr ''0123456789. ABCDEFGHIJK'') = [ustr ''0123456789'', ustr ''ABCDEFGHIJK''] \<and>
   surviving_sentences (ustr ''0123456789. ABCDEFGHIJK'') = [ustr ''ABCDEFGHIJK''] \<and>
   create_simple_summary (Some (ustr ''0123456789. ABCDEFGHIJK'')) = ustr ''ABCDEFGHIJK.'' \<and>
   create_simple_summary (Some (ustr ''0123456789. ABCDEFGHIJK'')) \<noteq> ustr ''0123456789. ABCDEFGHIJK.'' \<and>
   create_simple_summary (Some (ustr ''  ab'')) = ustr ''ab...'' \<and>
   create_simple_summary (Some (ustr ''  ab'')) \<noteq> take 200 (ustr ''  ab'') @ ustr ''...'' \<and>
   surviving_sentences (replicate 301 97) = [replicate 301 97] \<and>
   create_simple_summary (Some (replicate 301 97)) = replicate 200 97 @ ustr ''...''"
proof -
  have a: "split_sentences (ustr ''0123456789. ABCDEFGHIJK'') = [ustr ''0123456789'', ustr ''ABCDEFGHIJK'']"
    by (simp add: ustr_def is_space_def is_terminal_def)
  have b: "surviving_sentences (ustr ''0123456789. ABCDEFGHIJK'') = [ustr ''ABCDEFGHIJK'']"
    unfolding surviving_sentences_def a by (simp add: ustr_def strip_def is_space_def)
  have c: "create_simple_summary (Some (ustr ''0123456789. ABCDEFGHIJK'')) = ustr ''ABCDEFGHIJK.''"
    unfolding create_simple_summary_closed_form b by (simp add: ustr_def)
  have d: "create_simple_summary (Some (ustr ''  ab'')) = ustr ''ab...''"
    by (simp add: ustr_def Let_def create_simple_summary_def surviving_sentences_def strip_def
        is_space_def is_terminal_def truncated_def)
  have e: "surviving_sentences (replicate 301 97) = [replicate 301 97]"
    by (simp add: surviving_sentences_def split_sentences_no_break[OF no_break_replicate]
        strip_replicate)
  have f: "create_simple_summary (Some (replicate 301 97)) = replicate 200 97 @ ustr ''...''"
    unfolding create_simple_summary_closed_form e
    by (simp add: truncated_def strip_replicate)
  show ?thesis
    unfolding a b c d e f by (simp add: ustr_def)
qed


text \<open>
  C4 (amended). The text is cut at each terminal character (full stop, exclamation mark,
  question mark) that is directly followed by whitespace, the terminal and the whitespace
  run being dropped; a piece survives when its trimmed length is at least 11. With no
  survivor the summary is the trimmed first 200 characters of the text plus an ellipsis.
  Otherwise only the first two survivors matter: the truncation again when the first is
  longer than 300 characters, the first alone with a full stop when the two together are
  longer than 300 (or there is no second), and else both, joined by a full stop and a
  space, with a final full stop. The summary is a function of the text.
\<close>

theorem create_simple_summary_amended:
  "(\<not> has_break a \<longrightarrow> split_sentences a = [a]) \<and>
   (\<not> has_break a \<and> is_terminal t \<and> ws \<noteq> [] \<and> (\<forall>w\<in>set ws. is_space w) \<and>
      \<not> starts_with_space b \<longrightarrow>
      split_sentences (a @ t # ws @ b) = a # split_sentences b) \<and>
   surviving_sentences content =
     map strip (filter (\<lambda>s. 11 \<le> length (strip s)) (split_sentences content)) \<and>
   create_simple_summary (Some content) =
    (if content = [] then placeholder else
     case surviving_sentences content of
       [] \<Rightarrow> truncated content
     | [s1] \<Rightarrow> if length s1 > 300 then truncated content else s1 @ ustr ''.''
     | s1 # s2 # _ \<Rightarrow>
         if length s1 > 300 then truncated content
         else if length s1 + length s2 > 300 then s1 @ ustr ''.''
         else s1 @ ustr ''. '' @ s2 @ ustr ''.'')"
proof (intro conjI impI)
  show "split_sentences a = [a]" if "\<not> has_break a"
    using that by (rule split_sentences_no_break)
  show "split_sentences (a @ t # ws @ b) = a # split_sentences b"
    if "\<not> has_break a \<and> is_terminal t \<and> ws \<noteq> [] \<and> (\<forall>w\<in>set ws. is_space w) \<and>
      \<not> starts_with_space b"
    using that by (intro split_sentences_at_break) simp_all
  show "surviving_sentences content =
     map strip (filter (\<lambda>s. 11 \<le> length (strip s)) (split_sentences content))"
    by (rule surviving_sentences_threshold)
  show "create_simple_summary (Some content) =
    (if content = [] then placeholder else
     case surviving_sentences content of
       [] \<Rightarrow> truncated content
     | [s1] \<Rightarrow> if length s1 > 300 then truncated content else s1 @ ustr ''.''
     | s1 # s2 # _ \<Rightarrow>
         if length s1 > 300 then truncated content
         else if length s1 + length s2 > 300 then s1 @ ustr ''.''
         else s1 @ ustr ''. '' @ s2 @ ustr ''.'')"
    by (rule create_simple_summary_closed_form)
qed


theorem create_simple_summary_amended_witness:
  "split_sentences (ustr ''A sentence of some length. Another one, also long enough'') =
     [ustr ''A sentence of some length'', ustr ''Another one, also long enough''] \<and>
   create_simple_summary (Some (ustr ''A sentence of some length. Another one, also long enough'')) =
     ustr ''A sentence of some length. Another one, also long enough.''"
proof -
  let ?a = "ustr ''A sentence of some length''"
  let ?b = "ustr ''Another one, also long enough''"
  let ?c = "ustr ''A sentence of some length. Another one, also long enough''"
  have c: "?c = ?a @ 46 # [32] @ ?b" by (simp add: ustr_def)
  have h1: "\<not> has_break ?a" by (simp add: ustr_def is_terminal_def)
  have h2: "\<not> has_break ?b" by (simp add: ustr_def is_terminal_def)
  have h3: "\<not> has_break ?a \<and> is_terminal 46 \<and> [32] \<noteq> [] \<and> (\<forall>w\<in>set [32]. is_space w) \<and>
      \<not> starts_with_space ?b"
    using h1 by (simp add: ustr_def is_terminal_def is_space_def)
  note T1 = create_simple_summary_amended[of ?a 46 "[32]" ?b ?c]
  note T2 = create_simple_summary_amended[of ?b 46 "[32]" ?b ?c]
  have s1: "split_sentences (?a @ 46 # [32] @ ?b) = ?a # split_sentences ?b"
    using T1[THEN conjunct2, THEN conjunct1] h3 by (rule mp)
  have s2: "split_sentences ?b = [?b]"
    using T2[THEN conjunct1] h2 by (rule mp)
  have s: "split_sentences ?c = [?a, ?b]"
    unfolding c s1 s2 ..
  have sv: "surviving_sentences ?c = [?a, ?b]"
    unfolding T1[THEN conjunct2, THEN conjunct2, THEN conjunct1] s
    by (simp add: strip_def ustr_def is_space_def)
  have "create_simple_summary (Some ?c) = ?a @ ustr ''. '' @ ?b @ ustr ''.''"
    unfolding T1[THEN conjunct2, THEN conjunct2, THEN conjunct2] sv by (simp add: ustr_def)
  then show ?thesis using s by (simp add: ustr_def)
qed

text \<open>
  C9. On empty input (the empty string or \<open>None\<close>) the summarizer returns the fixed
  placeholder sentence; no sentence is split and nothing is truncated, and the result is
  not the bare ellipsis that the truncation rule gives on an empty text.
\<close>

theorem create_simple_summary_empty:
  "create_simple_summary None = placeholder \<and>
   create_simple_summary (Some []) = placeholder \<and>
   placeholder \<noteq> ustr ''...'' \<and>
   truncated [] = ustr ''...'' \<and>
   create_simple_summary None \<noteq> truncated [] \<and>
   create_simple_summary (Some []) \<noteq> truncated []"
  by (simp add: create_simple_summary_def placeholder_def truncated_def strip_def ustr_def)

subsection \<open>The classifier\<close>

lemma py_in_sublist: "py_in needle hay \<longleftrightarrow> sublist needle hay"
  by (induction hay) (auto simp: sublist_Cons_right)

lemma score_keywords_spec:
  "score_keywords lower ks title content acc = acc + spec_score lower ks title content"
  by (induction ks arbitrary: acc) (auto simp: spec_score_def py_in_sublist Let_def)

lemma max_loop_ge: "best \<le> max_loop vs best"
  by (induction vs arbitrary: best) (auto intro: order_trans less_imp_le)

lemma max_loop_upper: "v \<in> set vs \<Longrightarrow> v \<le> max_loop vs best"
proof (induction vs arbitrary: best)
  case Nil
  then show ?case by simp
next
  case (Cons a vs)
  show ?case
  proof (cases "v = a")
    case True
    have "a \<le> max_loop vs a" by (rule max_loop_ge)
    moreover have "\<not> a > best \<Longrightarrow> a \<le> max_loop vs best"
      using max_loop_ge[of best vs] by simp
    ultimately show ?thesis using True by simp
  next
    case False
    then have "v \<in> set vs" using Cons.prems by simp
    then show ?thesis using Cons.IH by simp
  qed
qed

lemma max_loop_mem: "max_loop vs best \<in> set (best # vs)"
  by (induction vs arbitrary: best) auto

lemma max_key_loop_snd: "snd (max_key_loop kvs best) = max_loop (map snd kvs) (snd best)"
  by (induction kvs arbitrary: best) auto

lemma max_key_loop_first:
  "\<exists>pre post. best # kvs = pre @ max_key_loop kvs best # post \<and>
     (\<forall>p\<in>set pre. snd p < snd (max_key_loop kvs best)) \<and>
     (\<forall>p\<in>set post. snd p \<le> snd (max_key_loop kvs best))"
proof (induction kvs arbitrary: best)
  case Nil
  show ?case by (rule exI[of _ "[]"], rule exI[of _ "[]"]) simp
next
  case (Cons kv kvs)
  show ?case
  proof (cases "snd kv > snd best")
    case True
    define M where "M = max_key_loop kvs kv"
    have r: "max_key_loop (kv # kvs) best = M" using True by (simp add: M_def)
    from Cons.IH[of kv] obtain pre post where
      s: "kv # kvs = pre @ M # post"
      and a: "\<forall>p\<in>set pre. snd p < snd M"
      and b: "\<forall>p\<in>set post. snd p \<le> snd M" unfolding M_def by blast
    have "snd kv \<le> snd M"
      unfolding M_def max_key_loop_snd by (rule max_loop_ge)
    then have lt: "snd best < snd M" using True by simp
    have "best # kv # kvs = (best # pre) @ M # post" using s by simp
    moreover have "\<forall>p\<in>set (best # pre). snd p < snd M" using a lt by simp
    ultimately show ?thesis unfolding r using b by blast
  next
    case False
    define M where "M = max_key_loop kvs best"
    have r: "max_key_loop (kv # kvs) best = M" using False by (simp add: M_def)
    from Cons.IH[of best] obtain pre post where
      s: "best # kvs = pre @ M # post"
      and a: "\<forall>p\<in>set pre. snd p < snd M"
      and b: "\<forall>p\<in>set post. snd p \<le> snd M" unfolding M_def by blast
    have ge: "snd best \<le> snd M"
      unfolding M_def max_key_loop_snd by (rule max_loop_ge)
    have kvle: "snd kv \<le> snd M" using False ge by simp
    show ?thesis
    proof (cases pre)
      case Nil
      then have m: "M = best" and k: "kvs = post" using s by simp_all
      have "best # kv # kvs = [] @ M # (kv # post)" using m k by simp
      moreover have "\<forall>p\<in>set (kv # post). snd p \<le> snd M" using b kvle by simp
      moreover have "\<forall>p\<in>set ([]::('a \<times> int) list). snd p < snd M" by simp
      ultimately show ?thesis unfolding r by blast
    next
      case (Cons p0 pre')
      then have p0: "p0 = best" and k: "kvs = pre' @ M # post"
        using s by simp_all
      have lt: "snd best < snd M" using a Cons p0 by simp
      have "best # kv # kvs = (best # kv # pre') @ M # post"
        using k by simp
      moreover have "\<forall>p\<in>set (best # kv # pre'). snd p < snd M"
        using a Cons lt False by auto
      ultimately show ?thesis unfolding r using b by blast
    qed
  qed
qed


lemma spec_score_nonneg: "0 \<le> spec_score lower kws title content"
  by (simp add: spec_score_def)

lemma spec_score_code:
  "spec_score lower kws title content =
     2 * int (length (filter (\<lambda>k. py_in (lower k) (lower title)) kws)) +
     int (length (filter (\<lambda>k. py_in (lower k) (lower content)) kws))"
  by (simp add: spec_score_def py_in_sublist)

lemma category_scores_spec:
  "category_scores lower title content =
     map (\<lambda>(c, kws). (c, spec_score lower kws title content)) category_keywords"
  by (simp add: category_scores_def score_keywords_spec)

lemma classify_category_cases:
  fixes lower title content
  defines "sc \<equiv> \<lambda>kws. spec_score lower kws title content"
  shows "\<exists>pre c kws post.
     category_keywords = pre @ (c, kws) # post \<and>
     (\<forall>p\<in>set pre. sc (snd p) < sc kws) \<and>
     (\<forall>p\<in>set post. sc (snd p) \<le> sc kws) \<and>
     classify_category lower title content = (if 0 < sc kws then Inr c else Inr cat_other)"
proof -
  let ?f = "\<lambda>p. (fst p, sc (snd p))"
  have cs: "category_scores lower title content = map ?f category_keywords"
    unfolding category_scores_spec sc_def by (simp add: case_prod_beta)
  obtain t0 ts where tab: "category_keywords = t0 # ts"
    by (simp add: category_keywords_def)
  define M where "M = max_key_loop (map ?f ts) (?f t0)"
  have pm: "py_max (map snd (map ?f category_keywords)) = Inr (snd M)"
    unfolding tab M_def max_key_loop_snd by simp
  have pk: "py_max_key (map ?f category_keywords) = Inr (fst M)"
    unfolding tab M_def by simp
  from max_key_loop_first[of "?f t0" "map ?f ts"] obtain pre' post' where
    s: "map ?f category_keywords = pre' @ M # post'"
    and a: "\<forall>p\<in>set pre'. snd p < snd M"
    and b: "\<forall>p\<in>set post'. snd p \<le> snd M"
    unfolding M_def tab by auto
  from s obtain pre x post where
    t: "category_keywords = pre @ x # post" and p1: "map ?f pre = pre'" and x: "?f x = M"
    and p2: "map ?f post = post'"
    by (auto simp: map_eq_append_conv map_eq_Cons_conv)
  have sm: "snd M = sc (snd x)" and fm: "fst M = fst x" using x by auto
  have a': "\<forall>p\<in>set pre. sc (snd p) < sc (snd x)"
  proof
    fix p assume "p \<in> set pre"
    then have "?f p \<in> set pre'" using p1 by auto
    then have "snd (?f p) < snd M" using a by blast
    then show "sc (snd p) < sc (snd x)" using sm by simp
  qed
  have b': "\<forall>p\<in>set post. sc (snd p) \<le> sc (snd x)"
  proof
    fix p assume "p \<in> set post"
    then have "?f p \<in> set post'" using p2 by auto
    then have "snd (?f p) \<le> snd M" using b by blast
    then show "sc (snd p) \<le> sc (snd x)" using sm by simp
  qed
  have "classify_category lower title content =
      (if 0 < sc (snd x) then Inr (fst x) else Inr cat_other)"
    unfolding classify_category_def cs Let_def pm pk sm fm by simp
  moreover have "category_keywords = pre @ (fst x, snd x) # post" using t by simp
  ultimately show ?thesis using a' b' by blast
qed


lemma category_names:
  "map fst category_keywords = [cat_ai, cat_science, cat_industry, cat_research, cat_policy]"
  by (simp add: category_keywords_def)

lemma category_names_distinct: "distinct (cat_other # map fst category_keywords)"
  unfolding category_names
  by (simp add: cat_ai_def cat_science_def cat_industry_def cat_research_def cat_policy_def
      cat_other_def)

text \<open>
  C3. The classifier never raises and returns one category. The score of a category is
  twice the number of its keywords that occur in the title plus the number that occur in
  the content, both sides lowercased and occurrence being that of a contiguous substring.
  When every category scores 0 the result is the catch-all category. Otherwise the result
  is a category of the table with a positive score that no category exceeds and that every
  category declared before it in the table falls strictly short of: the greatest score
  wins, and among equal greatest scores the category declared first. The result is a
  function of title and content.
\<close>

theorem classify_category_correct:
  "(py_in needle hay \<longleftrightarrow> sublist needle hay) \<and>
   category_scores lower title content =
     map (\<lambda>(c, kws). (c, spec_score lower kws title content)) category_keywords \<and>
   map fst category_keywords = [cat_ai, cat_science, cat_industry, cat_research, cat_policy] \<and>
   distinct (cat_other # map fst category_keywords) \<and>
   (\<exists>c. classify_category lower title content = Inr c) \<and>
   ((\<forall>p\<in>set category_keywords. spec_score lower (snd p) title content = 0) \<longrightarrow>
      classify_category lower title content = Inr cat_other) \<and>
   ((\<exists>p\<in>set category_keywords. spec_score lower (snd p) title content \<noteq> 0) \<longrightarrow>
      (\<exists>pre c kws post.
         category_keywords = pre @ (c, kws) # post \<and>
         classify_category lower title content = Inr c \<and>
         0 < spec_score lower kws title content \<and>
         (\<forall>p\<in>set pre. spec_score lower (snd p) title content
                        < spec_score lower kws title content) \<and>
         (\<forall>p\<in>set post. spec_score lower (snd p) title content
                        \<le> spec_score lower kws title content)))"
proof -
  let ?sc = "\<lambda>kws. spec_score lower kws title content"
  from classify_category_cases[of lower title content] obtain pre c kws post where
    t: "category_keywords = pre @ (c, kws) # post"
    and a: "\<forall>p\<in>set pre. ?sc (snd p) < ?sc kws"
    and b: "\<forall>p\<in>set post. ?sc (snd p) \<le> ?sc kws"
    and r: "classify_category lower title content = (if 0 < ?sc kws then Inr c else Inr cat_other)"
    by blast
  have ex: "\<exists>c. classify_category lower title content = Inr c" using r by simp
  have zero: "classify_category lower title content = Inr cat_other"
    if "\<forall>p\<in>set category_keywords. ?sc (snd p) = 0"
  proof -
    have "(c, kws) \<in> set category_keywords" unfolding t by simp
    then have "?sc (snd (c, kws)) = 0" using that by blast
    then have "?sc kws = 0" by simp
    then show ?thesis using r by simp
  qed
  have pos: "\<exists>pre c kws post.
         category_keywords = pre @ (c, kws) # post \<and>
         classify_category lower title content = Inr c \<and>
         0 < ?sc kws \<and>
         (\<forall>p\<in>set pre. ?sc (snd p) < ?sc kws) \<and>
         (\<forall>p\<in>set post. ?sc (snd p) \<le> ?sc kws)"
    if "\<exists>p\<in>set category_keywords. ?sc (snd p) \<noteq> 0"
  proof -
    from that obtain p where p: "p \<in> set category_keywords" and nz: "?sc (snd p) \<noteq> 0"
      by blast
    have "0 \<le> ?sc (snd p)" by (rule spec_score_nonneg)
    then have gt: "0 < ?sc (snd p)" using nz by simp
    have "p \<in> set pre \<or> p = (c, kws) \<or> p \<in> set post" using p[unfolded t] by auto
    then have "?sc (snd p) \<le> ?sc kws" using a b by fastforce
    then have "0 < ?sc kws" using gt by simp
    then show ?thesis using t a b r by auto
  qed
  show ?thesis
    using py_in_sublist[of needle hay] category_scores_spec[of lower title content]
      category_names category_names_distinct ex zero pos
    by (simp only: simp_thms) blast
qed


theorem classify_category_correct_witness:
  "classify_category ascii_lower [] (ustr ''DNA IPO'') = Inr cat_science \<and>
   spec_score ascii_lower keywords_science [] (ustr ''DNA IPO'') = 1 \<and>
   spec_score ascii_lower keywords_industry [] (ustr ''DNA IPO'') = 1 \<and>
   classify_category ascii_lower [] [] = Inr cat_other"
proof -
  let ?c = "ustr ''DNA IPO''"
  let ?sc = "\<lambda>kws. spec_score ascii_lower kws [] ?c"
  have s1: "?sc keywords_ai = 0"
    by (simp add: spec_score_code keywords_ai_def ascii_lower_def ustr_def)
  have s2: "?sc keywords_science = 1"
    by (simp add: spec_score_code keywords_science_def ascii_lower_def ustr_def)
  have s3: "?sc keywords_industry = 1"
    by (simp add: spec_score_code keywords_industry_def ascii_lower_def ustr_def)
  have s4: "?sc keywords_research = 0"
    by (simp add: spec_score_code keywords_research_def ascii_lower_def ustr_def)
  have s5: "?sc keywords_policy = 0"
    by (simp add: spec_score_code keywords_policy_def ascii_lower_def ustr_def)
  have z1: "spec_score ascii_lower keywords_ai [] [] = 0"
    by (simp add: spec_score_code keywords_ai_def ascii_lower_def ustr_def)
  have z2: "spec_score ascii_lower keywords_science [] [] = 0"
    by (simp add: spec_score_code keywords_science_def ascii_lower_def ustr_def)
  have z3: "spec_score ascii_lower keywords_industry [] [] = 0"
    by (simp add: spec_score_code keywords_industry_def ascii_lower_def ustr_def)
  have z4: "spec_score ascii_lower keywords_research [] [] = 0"
    by (simp add: spec_score_code keywords_research_def ascii_lower_def ustr_def)
  have z5: "spec_score ascii_lower keywords_policy [] [] = 0"
    by (simp add: spec_score_code keywords_policy_def ascii_lower_def ustr_def)
  note T = classify_category_correct[of "[]" "[]" ascii_lower "[]" ?c]
  note Z = classify_category_correct[of "[]" "[]" ascii_lower "[]" "[]"]
  have h: "\<exists>p\<in>set category_keywords. ?sc (snd p) \<noteq> 0"
    using s2 by (simp add: category_keywords_def)
  have hz: "\<forall>p\<in>set category_keywords. spec_score ascii_lower (snd p) [] [] = 0"
    using z1 z2 z3 z4 z5 by (simp add: category_keywords_def)
  from T h obtain pre c kws post where
    t: "category_keywords = pre @ (c, kws) # post"
    and r: "classify_category ascii_lower [] ?c = Inr c"
    and a: "\<forall>p\<in>set pre. ?sc (snd p) < ?sc kws"
    and b: "\<forall>p\<in>set post. ?sc (snd p) \<le> ?sc kws"
    by blast
  have "c = cat_science"
    using t a b s1 s2 s3 s4 s5 unfolding category_keywords_def
    by (auto simp: Cons_eq_append_conv)
  moreover have "classify_category ascii_lower [] [] = Inr cat_other"
    using Z hz by blast
  ultimately show ?thesis using r s2 s3 by simp
qed

subsection \<open>The recency filter\<close>

lemma in_window_naive:
  "in_window (Naive c) (drop_tzinfo d) (Naive b) = Inr (c \<le> wall d \<and> wall d \<le> b)"
  by (cases d) (auto simp: in_window_def split: bool.splits)

lemma filter_loop_naive:
  "filter_loop parse (Naive c) (Naive b) posts =
     filter (\<lambda>p. rss_published p \<noteq> [] \<and>
        (case parse (rss_published p) of
           Inl e \<Rightarrow> True
         | Inr d \<Rightarrow> c \<le> wall d \<and> wall d \<le> b)) posts"
  by (induction posts) (auto simp: Let_def in_window_naive split: sum.splits)

text \<open>
  C1 (the code at the failing input). A feed entry without a publication date reaches the
  filter with the empty string as \<open>published\<close>. For every parser the filter returns no
  post for it: the entry is dropped, although its date is neither outside the window nor
  parsed. In general, with a naive reference date, the filter keeps exactly the posts whose
  \<open>published\<close> is not empty and either fails to parse or, with its offset dropped, lies in
  the closed window from the cutoff to the reference date.
\<close>

theorem filter_recent_posts_drops_empty_published:
  "filter_recent_posts parse 7 (Some (Naive 63900000000000000)) now
     [\<lparr>rss_title = ustr ''A post'', rss_link = ustr ''http://blog/1'',
       rss_published = [], rss_summary = []\<rparr>] = Inr [] \<and>
   filter_loop parse (Naive c) (Naive b) posts =
     filter (\<lambda>p. rss_published p \<noteq> [] \<and>
        (case parse (rss_published p) of
           Inl e \<Rightarrow> True
         | Inr d \<Rightarrow> c \<le> wall d \<and> wall d \<le> b)) posts"
proof
  show "filter_recent_posts parse 7 (Some (Naive 63900000000000000)) now
     [\<lparr>rss_title = ustr ''A post'', rss_link = ustr ''http://blog/1'',
       rss_published = [], rss_summary = []\<rparr>] = Inr []"
    by (simp add: filter_recent_posts_def us_per_day_def datetime_max_us_def)
qed (rule filter_loop_naive)

subsection \<open>The feed collector\<close>

lemma length_collect_details: "length (collect_details fetch clock i posts) = length posts"
  by (induction posts arbitrary: i) auto

lemma scrape_post_detail_fields:
  "post_title (scrape_post_detail fetch t p) = rss_title p \<and>
   post_link (scrape_post_detail fetch t p) = rss_link p \<and>
   post_published (scrape_post_detail fetch t p) = rss_published p"
  by (simp add: scrape_post_detail_def Let_def split: sum.splits)

lemma scrape_post_detail_error:
  "fetch (rss_link p) = Inl e \<Longrightarrow> post_content (scrape_post_detail fetch t p) = rss_summary p"
  by (simp add: scrape_post_detail_def)

lemma collect_details_nth:
  "k < length posts \<Longrightarrow>
   collect_details fetch clock i posts ! k = scrape_post_detail fetch (clock (i + k)) (posts ! k)"
proof (induction posts arbitrary: i k)
  case Nil
  then show ?case by simp
next
  case (Cons p ps)
  show ?case
  proof (cases k)
    case 0
    then show ?thesis by simp
  next
    case (Suc j)
    then have "j < length ps" using Cons.prems by simp
    from Cons.IH[OF this, of "Suc i"] show ?thesis using Suc by simp
  qed
qed

lemma collect_details_map:
  "map post_title (collect_details fetch clock i posts) = map rss_title posts \<and>
   map post_link (collect_details fetch clock i posts) = map rss_link posts \<and>
   map post_published (collect_details fetch clock i posts) = map rss_published posts"
  by (induction posts arbitrary: i) (simp_all add: scrape_post_detail_fields)

text \<open>
C2 (as stated, refuted). The claim has a candidate whose detail page cannot be fetched
  skipped. Here the only candidate's fetch raises, and the candidate is returned all the
  same, with the summary of the feed as its content.
\<close>

theorem collect_posts_counterexample:
  "collect_posts (\<lambda>s. Inl ParserError) (\<lambda>u. Inl RequestException) (\<lambda>i. ustr ''2026-01-05T09:00:00'')
     (\<lambda>ps. Inr ()) 20 7 None (Naive 63900000000000000)
     [\<lparr>rss_title = ustr ''A post'', rss_link = ustr ''http://blog/1'',
       rss_published = ustr ''yesterday-ish'', rss_summary = ustr ''short text''\<rparr>]
   = Inr [\<lparr>post_title = ustr ''A post'', post_link = ustr ''http://blog/1'',
           post_published = ustr ''yesterday-ish'', post_content = ustr ''short text'',
           post_collected_at = ustr ''2026-01-05T09:00:00''\<rparr>]"
  by (simp add: collect_posts_def filter_recent_posts_def us_per_day_def datetime_max_us_def
      py_take_def scrape_post_detail_def ustr_def)

text \<open>
C2 (amended). No error of the detail scraping removes a candidate or ends the run: the
  loop returns one post for each candidate, in the candidates' order, with the title, link
  and publication date of the feed; a candidate whose fetch or parse raised is returned
  with the feed's summary as content. With a successful filter and a successful save,
  \<open>collect_posts\<close> returns exactly these posts for the first \<open>max_posts\<close> recent entries.
\<close>

theorem collect_posts_keeps_failed_items:
  "length (collect_details fetch clock i posts) = length posts \<and>
   map post_title (collect_details fetch clock i posts) = map rss_title posts \<and>
   map post_link (collect_details fetch clock i posts) = map rss_link posts \<and>
   map post_published (collect_details fetch clock i posts) = map rss_published posts \<and>
   (\<forall>k<length posts. \<forall>e. fetch (rss_link (posts ! k)) = Inl e \<longrightarrow>
      post_content (collect_details fetch clock i posts ! k) = rss_summary (posts ! k)) \<and>
   (\<forall>recent. filter_recent_posts parse days_lookback reference_date now rss_posts = Inr recent \<and>
      save (collect_details fetch clock 0 (py_take max_posts recent)) = Inr () \<longrightarrow>
      collect_posts parse fetch clock save max_posts days_lookback reference_date now rss_posts =
        Inr (collect_details fetch clock 0 (py_take max_posts recent)))"
proof (intro conjI allI impI)
  show "length (collect_details fetch clock i posts) = length posts"
    by (rule length_collect_details)
  show "map post_title (collect_details fetch clock i posts) = map rss_title posts"
    "map post_link (collect_details fetch clock i posts) = map rss_link posts"
    "map post_published (collect_details fetch clock i posts) = map rss_published posts"
    using collect_details_map[of fetch clock i posts] by simp_all
  show "post_content (collect_details fetch clock i posts ! k) = rss_summary (posts ! k)"
    if "k < length posts" "fetch (rss_link (posts ! k)) = Inl e" for k e
    using that by (simp add: collect_details_nth scrape_post_detail_error)
  show "collect_posts parse fetch clock save max_posts days_lookback reference_date now rss_posts =
        Inr (collect_details fetch clock 0 (py_take max_posts recent))"
    if "filter_recent_posts parse days_lookback reference_date now rss_posts = Inr recent \<and>
      save (collect_details fetch clock 0 (py_take max_posts recent)) = Inr ()" for recent
    using that by (simp add: collect_posts_def)
qed


theorem collect_posts_keeps_failed_items_witness:
  "collect_posts (\<lambda>s. Inl ParserError)
     (\<lambda>u. if u = ustr ''http://blog/1'' then Inl RequestException
          else Inr \<lparr>se_main_container = Some (ustr ''body two''), post_view_area = None,
                     post_view = None\<rparr>)
     (\<lambda>i. ustr ''t'') (\<lambda>ps. Inr ()) 20 7 None (Naive 63900000000000000)
     [\<lparr>rss_title = ustr ''one'', rss_link = ustr ''http://blog/1'',
       rss_published = ustr ''x'', rss_summary = ustr ''summary one''\<rparr>,
      \<lparr>rss_title = ustr ''two'', rss_link = ustr ''http://blog/2'',
       rss_published = ustr ''y'', rss_summary = ustr ''summary two''\<rparr>]
   = Inr [\<lparr>post_title = ustr ''one'', post_link = ustr ''http://blog/1'',
           post_published = ustr ''x'', post_content = ustr ''summary one'',
           post_collected_at = ustr ''t''\<rparr>,
          \<lparr>post_title = ustr ''two'', post_link = ustr ''http://blog/2'',
           post_published = ustr ''y'', post_content = ustr ''body two'',
           post_collected_at = ustr ''t''\<rparr>]"
proof -
  let ?parse = "\<lambda>s::ustring. (Inl ParserError :: py_error + pydatetime)"
  let ?fetch = "\<lambda>u. if u = ustr ''http://blog/1'' then Inl RequestException
          else Inr \<lparr>se_main_container = Some (ustr ''body two''), post_view_area = None,
                     post_view = None\<rparr>"
  let ?clock = "\<lambda>i::nat. ustr ''t''"
  let ?save = "\<lambda>ps::detailed_post list. (Inr () :: py_error + unit)"
  let ?p1 = "\<lparr>rss_title = ustr ''one'', rss_link = ustr ''http://blog/1'',
       rss_published = ustr ''x'', rss_summary = ustr ''summary one''\<rparr>"
  let ?p2 = "\<lparr>rss_title = ustr ''two'', rss_link = ustr ''http://blog/2'',
       rss_published = ustr ''y'', rss_summary = ustr ''summary two''\<rparr>"
  have f: "filter_recent_posts ?parse 7 None (Naive 63900000000000000) [?p1, ?p2] = Inr [?p1, ?p2]"
    by (simp add: filter_recent_posts_def us_per_day_def datetime_max_us_def ustr_def)
  have t: "py_take 20 [?p1, ?p2] = [?p1, ?p2]" by (simp add: py_take_def)
  note T = collect_posts_keeps_failed_items[of ?fetch ?clock 0 "[?p1, ?p2]" ?parse 7 None
      "Naive 63900000000000000" "[?p1, ?p2]" ?save 20]
  have h: "filter_recent_posts ?parse 7 None (Naive 63900000000000000) [?p1, ?p2] = Inr [?p1, ?p2] \<and>
      ?save (collect_details ?fetch ?clock 0 (py_take 20 [?p1, ?p2])) = Inr ()"
    using f by simp
  have e: "?fetch (rss_link ([?p1, ?p2] ! 0)) = Inl RequestException" by simp
  have c0: "post_content (collect_details ?fetch ?clock 0 [?p1, ?p2] ! 0) = ustr ''summary one''"
    using T e by fastforce
  have r: "collect_posts ?parse ?fetch ?clock ?save 20 7 None (Naive 63900000000000000) [?p1, ?p2]
      = Inr (collect_details ?fetch ?clock 0 (py_take 20 [?p1, ?p2]))"
    using T h by blast
  show ?thesis unfolding r t using c0
    by (simp add: scrape_post_detail_def ustr_def)
qed

subsection \<open>The orchestrator\<close>

lemma collect_loop_posts:
  "fst (collect_loop names runs (acc, st)) = acc @ concat (map (contribution names) runs)"
  by (induction runs arbitrary: acc st) (auto simp: contribution_def split: sum.splits)

lemma collect_loop_append:
  "collect_loop names (xs @ ys) state = collect_loop names ys (collect_loop names xs state)"
proof (induction xs arbitrary: state)
  case Nil
  then show ?case by simp
next
  case (Cons x xs)
  obtain n r where x: "x = (n, r)" by (cases x)
  obtain acc st where s: "state = (acc, st)" by (cases state)
  show ?case unfolding x s using Cons.IH by (cases r) simp_all
qed

lemma collect_loop_stats_other:
  "m \<notin> fst ` set runs \<Longrightarrow> snd (collect_loop names runs (acc, st)) m = st m"
  by (induction runs arbitrary: acc st) (auto split: sum.splits)

lemma collect_loop_step:
  "collect_loop names ((n, r) # runs) (acc, st) =
     collect_loop names runs (acc @ contribution names (n, r), st(n \<mapsto> recorded_count r))"
  by (cases r) (simp_all add: contribution_def recorded_count_def)

lemma collect_loop_stats:
  "distinct (map fst runs) \<Longrightarrow> (n, r) \<in> set runs \<Longrightarrow>
   snd (collect_loop names runs (acc, st)) n = Some (recorded_count r)"
proof (induction runs arbitrary: acc st)
  case Nil
  then show ?case by simp
next
  case (Cons x runs)
  obtain n' r' where x: "x = (n', r')" by (cases x)
  show ?case
  proof (cases "(n, r) = x")
    case True
    then have nn: "n \<notin> fst ` set runs" using Cons.prems(1) by force
    have "snd (collect_loop names ((n, r) # runs) (acc, st)) n = Some (recorded_count r)"
      unfolding collect_loop_step using collect_loop_stats_other[OF nn] by simp
    then show ?thesis using True by simp
  next
    case False
    then have "(n, r) \<in> set runs" using Cons.prems(2) by simp
    moreover have "distinct (map fst runs)" using Cons.prems(1) by simp
    ultimately have "snd (collect_loop names ((n', r') # runs) (acc, st)) n = Some (recorded_count r)"
      unfolding collect_loop_step using Cons.IH by blast
    then show ?thesis using x by simp
  qed
qed

lemma collect_loop_stats_cong:
  "st m = st' m \<Longrightarrow>
   snd (collect_loop names runs (acc, st)) m = snd (collect_loop names runs (acc', st')) m"
proof (induction runs arbitrary: acc st acc' st')
  case Nil
  then show ?case by simp
next
  case (Cons x runs)
  obtain n r where x: "x = (n, r)" by (cases x)
  have "(st(n \<mapsto> recorded_count r)) m = (st'(n \<mapsto> recorded_count r)) m"
    using Cons.prems by simp
  from Cons.IH[where st="st(n \<mapsto> recorded_count r)" and st'="st'(n \<mapsto> recorded_count r)",
      OF this]
  have "snd (collect_loop names ((n, r) # runs) (acc, st)) m =
        snd (collect_loop names ((n, r) # runs) (acc', st')) m"
    unfolding collect_loop_step by blast
  then show ?case using x by simp
qed

lemma collect_loop_failed_source_stats:
  assumes "m \<noteq> n"
  shows "snd (collect_loop names (xs @ (n, Inl e) # ys) (acc, st)) m =
         snd (collect_loop names (xs @ ys) (acc, st)) m"
proof -
  obtain a1 s1 where s: "collect_loop names xs (acc, st) = (a1, s1)"
    by (cases "collect_loop names xs (acc, st)")
  have "(s1(n \<mapsto> 0)) m = s1 m" using assms by simp
  from collect_loop_stats_cong[where st="s1(n \<mapsto> 0)" and st'=s1 and m=m, OF this] show ?thesis
    by (simp add: collect_loop_append s del: collect_loop.simps add: collect_loop_step recorded_count_def contribution_def)
qed

lemma stamp_fields:
  "data_source (stamp n d p) = Some n \<and> source_display_name (stamp n d p) = Some d \<and>
   src_body (stamp n d p) = src_body p"
  by (simp add: stamp_def)

lemma contribution_stamped:
  "p \<in> set (contribution names run) \<Longrightarrow>
   data_source p = Some (fst run) \<and> source_display_name p = Some (display_name names (fst run))"
  by (auto simp: contribution_def stamp_fields split: sum.splits)


text \<open>
C5. In a run of the orchestrator, the aggregate is the concatenation, in the order of the
  sources, of what each source contributes: nothing for a source whose collector raised,
  and the returned posts, each stamped, for the others. With distinct source names (the keys
  of a dict) the count recorded for a failed source is 0 and for any other source the number
  of its posts. A failed source changes neither the aggregate nor the count of any other
  source: the run with it and the run without it agree on both. Every post of the aggregate
  carries the name of a source of the run that returned posts and that source's display
  name. The function returns the aggregate unless the final save raises.
\<close>

theorem collect_all_sources_isolation:
  "fst (collect_loop names runs ([], Map.empty)) = concat (map (contribution names) runs) \<and>
   (distinct (map fst runs) \<and> (n, Inl e) \<in> set runs \<longrightarrow>
      contribution names (n, Inl e) = [] \<and>
      snd (collect_loop names runs ([], Map.empty)) n = Some 0) \<and>
   (distinct (map fst runs) \<and> (n, Inr ps) \<in> set runs \<longrightarrow>
      snd (collect_loop names runs ([], Map.empty)) n = Some (int (length ps))) \<and>
   fst (collect_loop names (xs @ (n, Inl e) # ys) ([], Map.empty)) =
     fst (collect_loop names (xs @ ys) ([], Map.empty)) \<and>
   (\<forall>m. m \<noteq> n \<longrightarrow>
      snd (collect_loop names (xs @ (n, Inl e) # ys) ([], Map.empty)) m =
      snd (collect_loop names (xs @ ys) ([], Map.empty)) m) \<and>
   (\<forall>p\<in>set (fst (collect_loop names runs ([], Map.empty))).
      \<exists>run\<in>set runs. (\<exists>posts. snd run = Inr posts) \<and>
        data_source p = Some (fst run) \<and>
        source_display_name p = Some (display_name names (fst run))) \<and>
   collect_all_sources names runs save =
     (case save (collect_loop names runs ([], Map.empty)) of
        Inl e \<Rightarrow> Inl e
      | Inr u \<Rightarrow> Inr (fst (collect_loop names runs ([], Map.empty))))"
proof (intro conjI impI allI ballI)
  show "fst (collect_loop names runs ([], Map.empty)) = concat (map (contribution names) runs)"
    by (simp add: collect_loop_posts)
  show "contribution names (n, Inl e) = []"
    by (simp add: contribution_def)
  show "snd (collect_loop names runs ([], Map.empty)) n = Some 0"
    if "distinct (map fst runs) \<and> (n, Inl e) \<in> set runs"
    using that collect_loop_stats[of runs n "Inl e" names "[]" Map.empty]
    by (simp add: recorded_count_def)
  show "snd (collect_loop names runs ([], Map.empty)) n = Some (int (length ps))"
    if "distinct (map fst runs) \<and> (n, Inr ps) \<in> set runs"
    using that collect_loop_stats[of runs n "Inr ps" names "[]" Map.empty]
    by (simp add: recorded_count_def)
  show "fst (collect_loop names (xs @ (n, Inl e) # ys) ([], Map.empty)) =
     fst (collect_loop names (xs @ ys) ([], Map.empty))"
    by (simp add: collect_loop_posts contribution_def)
  show "snd (collect_loop names (xs @ (n, Inl e) # ys) ([], Map.empty)) m =
      snd (collect_loop names (xs @ ys) ([], Map.empty)) m" if "m \<noteq> n" for m
    using that by (rule collect_loop_failed_source_stats)
  show "\<exists>run\<in>set runs. (\<exists>posts. snd run = Inr posts) \<and>
        data_source p = Some (fst run) \<and>
        source_display_name p = Some (display_name names (fst run))"
    if "p \<in> set (fst (collect_loop names runs ([], Map.empty)))" for p
  proof -
    from that obtain run where run: "run \<in> set runs" and p: "p \<in> set (contribution names run)"
      by (auto simp: collect_loop_posts)
    have "\<exists>posts. snd run = Inr posts"
      using p by (cases "snd run") (simp_all add: contribution_def)
    then show ?thesis using run contribution_stamped[OF p] by blast
  qed
  show "collect_all_sources names runs save =
     (case save (collect_loop names runs ([], Map.empty)) of
        Inl e \<Rightarrow> Inl e
      | Inr u \<Rightarrow> Inr (fst (collect_loop names runs ([], Map.empty))))"
    by (simp add: collect_all_sources_def Let_def)
qed

theorem collect_all_sources_isolation_witness:
  "collect_all_sources (\<lambda>n. if n = ustr ''naver_blog'' then Some (ustr ''Blog'') else None)
     [(ustr ''ajunews_column'', Inl RequestException),
      (ustr ''naver_blog'',
       Inr [\<lparr>src_body = ustr ''p1'', src_source = None, data_source = None,
             source_display_name = None\<rparr>])]
     (\<lambda>st. Inr ()) =
   Inr [\<lparr>src_body = ustr ''p1'', src_source = Some (ustr ''Blog''),
         data_source = Some (ustr ''naver_blog''), source_display_name = Some (ustr ''Blog'')\<rparr>] \<and>
   snd (collect_loop (\<lambda>n. if n = ustr ''naver_blog'' then Some (ustr ''Blog'') else None)
     [(ustr ''ajunews_column'', Inl RequestException),
      (ustr ''naver_blog'',
       Inr [\<lparr>src_body = ustr ''p1'', src_source = None, data_source = None,
             source_display_name = None\<rparr>])] ([], Map.empty)) (ustr ''ajunews_column'') = Some 0 \<and>
   snd (collect_loop (\<lambda>n. if n = ustr ''naver_blog'' then Some (ustr ''Blog'') else None)
     [(ustr ''ajunews_column'', Inl RequestException),
      (ustr ''naver_blog'',
       Inr [\<lparr>src_body = ustr ''p1'', src_source = None, data_source = None,
             source_display_name = None\<rparr>])] ([], Map.empty)) (ustr ''naver_blog'') = Some 1"
proof -
  let ?names = "\<lambda>n. if n = ustr ''naver_blog'' then Some (ustr ''Blog'') else None"
  let ?p = "\<lparr>src_body = ustr ''p1'', src_source = None, data_source = None,
             source_display_name = None\<rparr>"
  let ?runs = "[(ustr ''ajunews_column'', Inl RequestException), (ustr ''naver_blog'', Inr [?p])]"
  let ?save = "\<lambda>st::(ustring source_post list \<times> (ustring \<rightharpoonup> int)). (Inr () :: py_error + unit)"
  note T1 = collect_all_sources_isolation[of ?names ?runs "ustr ''ajunews_column''" RequestException
      "[?p]" "[]" "[(ustr ''naver_blog'', Inr [?p])]" ?save]
  note T2 = collect_all_sources_isolation[of ?names ?runs "ustr ''naver_blog''" RequestException
      "[?p]" "[]" "[]" ?save]
  have d: "distinct (map fst ?runs)" by (simp add: ustr_def)
  have h1: "distinct (map fst ?runs) \<and> (ustr ''ajunews_column'', Inl RequestException) \<in> set ?runs"
    using d by simp
  have h2: "distinct (map fst ?runs) \<and> (ustr ''naver_blog'', Inr [?p]) \<in> set ?runs"
    using d by simp
  have a: "snd (collect_loop ?names ?runs ([], Map.empty)) (ustr ''ajunews_column'') = Some 0"
    using T1[THEN conjunct2, THEN conjunct1] h1 by blast
  have "snd (collect_loop ?names ?runs ([], Map.empty)) (ustr ''naver_blog'') = Some (int (length [?p]))"
    using T2[THEN conjunct2, THEN conjunct2, THEN conjunct1] h2 by blast
  then have b: "snd (collect_loop ?names ?runs ([], Map.empty)) (ustr ''naver_blog'') = Some 1"
    by simp
  have c: "fst (collect_loop ?names ?runs ([], Map.empty)) =
      fst (collect_loop ?names ([] @ [(ustr ''naver_blog'', Inr [?p])]) ([], Map.empty))"
    using T1[THEN conjunct2, THEN conjunct2, THEN conjunct2, THEN conjunct1] by simp
  have "collect_all_sources ?names ?runs ?save = Inr (fst (collect_loop ?names ?runs ([], Map.empty)))"
    using T1[THEN conjunct2, THEN conjunct2, THEN conjunct2, THEN conjunct2, THEN conjunct2,
        THEN conjunct2] by simp
  then have "collect_all_sources ?names ?runs ?save =
      Inr [\<lparr>src_body = ustr ''p1'', src_source = Some (ustr ''Blog''),
         data_source = Some (ustr ''naver_blog''), source_display_name = Some (ustr ''Blog'')\<rparr>]"
    unfolding c by (simp add: stamp_def display_name_def)
  then show ?thesis using a b by simp
qed

subsection \<open>The URL cache\<close>

lemma load_or_generate_url_list_fresh:
  "fst (load_or_generate_url_list fromisoformat now cache_file) = CachedList \<longleftrightarrow>
     (\<exists>updated urls d age. cache_file = CacheDict updated urls \<and>
        fromisoformat (case updated of Some u \<Rightarrow> u | None \<Rightarrow> ustr ''2000-01-01'') = Inr d \<and>
        dt_diff (Naive now) d = Inr age \<and> age < us_per_day)"
  by (cases cache_file) (auto simp: load_or_generate_url_list_def split: sum.splits)

lemma load_or_generate_url_list_default:
  "fst (load_or_generate_url_list fromisoformat now cache_file) = DefaultList \<Longrightarrow>
   snd (load_or_generate_url_list fromisoformat now cache_file) = known_urls"
  by (cases cache_file) (auto simp: load_or_generate_url_list_def split: sum.splits if_splits)

lemma load_or_generate_url_list_cached:
  "fst (load_or_generate_url_list fromisoformat now cache_file) = CachedList \<Longrightarrow>
   \<exists>updated urls. cache_file = CacheDict updated urls \<and>
     snd (load_or_generate_url_list fromisoformat now cache_file) =
       (case urls of Some us \<Rightarrow> us | None \<Rightarrow> known_urls)"
  by (cases cache_file) (auto simp: load_or_generate_url_list_def split: sum.splits if_splits)

lemma load_or_generate_url_list_naive:
  "fromisoformat u = Inr (Naive t) \<Longrightarrow>
   load_or_generate_url_list fromisoformat now (CacheDict (Some u) (Some us)) =
     (if now - t < us_per_day then (CachedList, us) else (DefaultList, known_urls))"
  by (simp add: load_or_generate_url_list_def)

text \<open>
C6. The cached list is used exactly when the cache file is a JSON object, its
  \<open>updated\<close> value (or the default date, when the key is missing) parses, the subtraction
  from the current time is defined, and the age is strictly less than one day. In that case
  the function returns the \<open>urls\<close> of the cache as they are (the built-in list when the
  object has no such key); in every other case (no file, a file that cannot be loaded, a
  date that cannot be parsed or compared, an age of one day or more) it returns the built-in
  list. A cache updated 23 hours 59 minutes ago is used, one updated 24 hours and 1 minute
  ago and one updated exactly 24 hours ago are not.
\<close>

theorem load_or_generate_url_list_freshness:
  "(fst (load_or_generate_url_list fromisoformat now cache_file) = CachedList \<longleftrightarrow>
     (\<exists>updated urls d age. cache_file = CacheDict updated urls \<and>
        fromisoformat (case updated of Some u \<Rightarrow> u | None \<Rightarrow> ustr ''2000-01-01'') = Inr d \<and>
        dt_diff (Naive now) d = Inr age \<and> age < us_per_day)) \<and>
   (fst (load_or_generate_url_list fromisoformat now cache_file) = DefaultList \<longrightarrow>
      snd (load_or_generate_url_list fromisoformat now cache_file) = known_urls) \<and>
   (fst (load_or_generate_url_list fromisoformat now cache_file) = CachedList \<longrightarrow>
      (\<exists>updated urls. cache_file = CacheDict updated urls \<and>
         snd (load_or_generate_url_list fromisoformat now cache_file) =
           (case urls of Some us \<Rightarrow> us | None \<Rightarrow> known_urls))) \<and>
   (fromisoformat u = Inr (Naive t) \<longrightarrow>
      load_or_generate_url_list fromisoformat now (CacheDict (Some u) (Some us)) =
        (if now - t < us_per_day then (CachedList, us) else (DefaultList, known_urls))) \<and>
   (fromisoformat u = Inr (Naive (now - (24 * 3600000000 - 60000000))) \<longrightarrow>
      load_or_generate_url_list fromisoformat now (CacheDict (Some u) (Some us)) = (CachedList, us)) \<and>
   (fromisoformat u = Inr (Naive (now - (24 * 3600000000 + 60000000))) \<longrightarrow>
      load_or_generate_url_list fromisoformat now (CacheDict (Some u) (Some us)) =
        (DefaultList, known_urls)) \<and>
   (fromisoformat u = Inr (Naive (now - 24 * 3600000000)) \<longrightarrow>
      load_or_generate_url_list fromisoformat now (CacheDict (Some u) (Some us)) =
        (DefaultList, known_urls)) \<and>
   load_or_generate_url_list fromisoformat now NoFile = (DefaultList, known_urls) \<and>
   load_or_generate_url_list fromisoformat now Unreadable = (DefaultList, known_urls)"
proof (intro conjI impI)
  show "fst (load_or_generate_url_list fromisoformat now cache_file) = CachedList \<longleftrightarrow>
     (\<exists>updated urls d age. cache_file = CacheDict updated urls \<and>
        fromisoformat (case updated of Some u \<Rightarrow> u | None \<Rightarrow> ustr ''2000-01-01'') = Inr d \<and>
        dt_diff (Naive now) d = Inr age \<and> age < us_per_day)"
    by (rule load_or_generate_url_list_fresh)
  show "snd (load_or_generate_url_list fromisoformat now cache_file) = known_urls"
    if "fst (load_or_generate_url_list fromisoformat now cache_file) = DefaultList"
    using that by (rule load_or_generate_url_list_default)
  show "\<exists>updated urls. cache_file = CacheDict updated urls \<and>
         snd (load_or_generate_url_list fromisoformat now cache_file) =
           (case urls of Some us \<Rightarrow> us | None \<Rightarrow> known_urls)"
    if "fst (load_or_generate_url_list fromisoformat now cache_file) = CachedList"
    using that by (rule load_or_generate_url_list_cached)
  show "load_or_generate_url_list fromisoformat now (CacheDict (Some u) (Some us)) =
        (if now - t < us_per_day then (CachedList, us) else (DefaultList, known_urls))"
    if "fromisoformat u = Inr (Naive t)"
    using load_or_generate_url_list_naive[of fromisoformat u t now us] that by simp
  show "load_or_generate_url_list fromisoformat now (CacheDict (Some u) (Some us)) = (CachedList, us)"
    if "fromisoformat u = Inr (Naive (now - (24 * 3600000000 - 60000000)))"
    using load_or_generate_url_list_naive[of fromisoformat u _ now us] that by (simp add: us_per_day_def)
  show "load_or_generate_url_list fromisoformat now (CacheDict (Some u) (Some us)) =
        (DefaultList, known_urls)"
    if "fromisoformat u = Inr (Naive (now - (24 * 3600000000 + 60000000)))"
    using load_or_generate_url_list_naive[of fromisoformat u _ now us] that by (simp add: us_per_day_def)
  show "load_or_generate_url_list fromisoformat now (CacheDict (Some u) (Some us)) =
        (DefaultList, known_urls)"
    if "fromisoformat u = Inr (Naive (now - 24 * 3600000000))"
    using load_or_generate_url_list_naive[of fromisoformat u _ now us] that by (simp add: us_per_day_def)
  show "load_or_generate_url_list fromisoformat now NoFile = (DefaultList, known_urls)"
    "load_or_generate_url_list fromisoformat now Unreadable = (DefaultList, known_urls)"
    by (simp_all add: load_or_generate_url_list_def)
qed


theorem load_or_generate_url_list_freshness_witness:
  "load_or_generate_url_list
     (\<lambda>s. if s = ustr ''fresh'' then Inr (Naive (1000000000000 - (24 * 3600000000 - 60000000)))
          else if s = ustr ''stale'' then Inr (Naive (1000000000000 - (24 * 3600000000 + 60000000)))
          else if s = ustr ''day'' then Inr (Naive (1000000000000 - 24 * 3600000000))
          else Inl ValueError)
     1000000000000 (CacheDict (Some (ustr ''fresh'')) (Some [ustr ''u1'', ustr ''u2''])) =
     (CachedList, [ustr ''u1'', ustr ''u2'']) \<and>
   load_or_generate_url_list
     (\<lambda>s. if s = ustr ''fresh'' then Inr (Naive (1000000000000 - (24 * 3600000000 - 60000000)))
          else if s = ustr ''stale'' then Inr (Naive (1000000000000 - (24 * 3600000000 + 60000000)))
          else if s = ustr ''day'' then Inr (Naive (1000000000000 - 24 * 3600000000))
          else Inl ValueError)
     1000000000000 (CacheDict (Some (ustr ''stale'')) (Some [ustr ''u1'', ustr ''u2''])) =
     (DefaultList, known_urls) \<and>
   load_or_generate_url_list
     (\<lambda>s. if s = ustr ''fresh'' then Inr (Naive (1000000000000 - (24 * 3600000000 - 60000000)))
          else if s = ustr ''stale'' then Inr (Naive (1000000000000 - (24 * 3600000000 + 60000000)))
          else if s = ustr ''day'' then Inr (Naive (1000000000000 - 24 * 3600000000))
          else Inl ValueError)
     1000000000000 (CacheDict (Some (ustr ''day'')) (Some [ustr ''u1'', ustr ''u2''])) =
     (DefaultList, known_urls)"
proof -
  let ?f = "\<lambda>s. if s = ustr ''fresh'' then Inr (Naive (1000000000000 - (24 * 3600000000 - 60000000)))
          else if s = ustr ''stale'' then Inr (Naive (1000000000000 - (24 * 3600000000 + 60000000)))
          else if s = ustr ''day'' then Inr (Naive (1000000000000 - 24 * 3600000000))
          else Inl ValueError"
  let ?us = "[ustr ''u1'', ustr ''u2'']"
  have h1: "?f (ustr ''fresh'') = Inr (Naive (1000000000000 - (24 * 3600000000 - 60000000)))"
    by simp
  have h2: "?f (ustr ''stale'') = Inr (Naive (1000000000000 - (24 * 3600000000 + 60000000)))"
    by (simp add: ustr_def)
  have h3: "?f (ustr ''day'') = Inr (Naive (1000000000000 - 24 * 3600000000))"
    by (simp add: ustr_def)
  note T1 = load_or_generate_url_list_freshness[of ?f 1000000000000 NoFile "ustr ''fresh''" 0 ?us]
  note T2 = load_or_generate_url_list_freshness[of ?f 1000000000000 NoFile "ustr ''stale''" 0 ?us]
  note T3 = load_or_generate_url_list_freshness[of ?f 1000000000000 NoFile "ustr ''day''" 0 ?us]
  have a: "load_or_generate_url_list ?f 1000000000000 (CacheDict (Some (ustr ''fresh'')) (Some ?us))
      = (CachedList, ?us)"
    using T1[THEN conjunct2, THEN conjunct2, THEN conjunct2, THEN conjunct2, THEN conjunct1] h1
    by (rule mp)
  have b: "load_or_generate_url_list ?f 1000000000000 (CacheDict (Some (ustr ''stale'')) (Some ?us))
      = (DefaultList, known_urls)"
    using T2[THEN conjunct2, THEN conjunct2, THEN conjunct2, THEN conjunct2, THEN conjunct2,
        THEN conjunct1] h2
    by (rule mp)
  have c: "load_or_generate_url_list ?f 1000000000000 (CacheDict (Some (ustr ''day'')) (Some ?us))
      = (DefaultList, known_urls)"
    using T3[THEN conjunct2, THEN conjunct2, THEN conjunct2, THEN conjunct2, THEN conjunct2,
        THEN conjunct2, THEN conjunct1] h3
    by (rule mp)
  show ?thesis using a b c by (intro conjI)
qed

subsection \<open>The column test\<close>

lemma match_here_sound: "match_here ps s \<Longrightarrow> \<exists>m r. s = m @ r \<and> matches ps m"
proof (induction ps s rule: match_here.induct)
  case (1 s)
  have "s = [] @ s \<and> matches [] []" by (simp add: matches_Nil)
  then show ?case by blast
next
  case (2 c ps)
  then show ?case by simp
next
  case (3 c ps x xs)
  then obtain m r where "xs = m @ r" "matches ps m" "ci_eq c x" by (auto split: if_splits)
  then have "x # xs = (x # m) @ r \<and> matches (Lit c # ps) (x # m)"
    by (simp add: matches_Lit)
  then show ?case by blast
next
  case (4 ps)
  then obtain m r where mr: "[] = m @ r" "matches ps m" by auto
  have "matches (Spaces # ps) ([] @ m)" using matches_Spaces[of "[]" ps m] mr by simp
  then have "[] = m @ r \<and> matches (Spaces # ps) m" using mr by simp
  then show ?case by blast
next
  case (5 ps x xs)
  show ?case
  proof (cases "match_here ps (x # xs)")
    case True
    with 5 obtain m r where mr: "x # xs = m @ r" "matches ps m" by auto
    have "matches (Spaces # ps) ([] @ m)" using matches_Spaces[of "[]" ps m] mr by simp
    then have "x # xs = m @ r \<and> matches (Spaces # ps) m" using mr by simp
    then show ?thesis by blast
  next
    case False
    with 5 have sp: "is_space x" and "match_here (Spaces # ps) xs" by (auto split: if_splits)
    with 5 False obtain m r where mr: "xs = m @ r" "matches (Spaces # ps) m" by auto
    from mr(2) obtain ws m' where m: "m = ws @ m'" "\<forall>w\<in>set ws. is_space w" "matches ps m'"
      by (auto elim: matches.cases)
    have "matches (Spaces # ps) ((x # ws) @ m')"
      using matches_Spaces[of "x # ws" ps m'] sp m by simp
    then have "x # xs = (x # m) @ r \<and> matches (Spaces # ps) (x # m)" using mr m by simp
    then show ?thesis by blast
  qed
qed

lemma match_here_spaces:
  "\<forall>w\<in>set ws. is_space w \<Longrightarrow> match_here ps s \<Longrightarrow> match_here (Spaces # ps) (ws @ s)"
proof (induction ws)
  case Nil
  then show ?case by (cases s) simp_all
next
  case (Cons w ws)
  then show ?case by simp
qed

lemma match_here_complete: "matches ps m \<Longrightarrow> match_here ps (m @ r)"
proof (induction rule: matches.induct)
  case matches_Nil
  then show ?case by simp
next
  case (matches_Lit c x ps m)
  then show ?case by simp
next
  case (matches_Spaces ws ps m)
  then show ?case using match_here_spaces[of ws ps "m @ r"] by simp
qed

lemma match_here_iff: "match_here ps s \<longleftrightarrow> (\<exists>m r. s = m @ r \<and> matches ps m)"
  using match_here_sound match_here_complete by blast

lemma re_search_iff: "re_search ps s \<longleftrightarrow> (\<exists>pre m post. s = pre @ m @ post \<and> matches ps m)"
proof (induction s)
  case Nil
  show ?case by (auto simp: match_here_iff)
next
  case (Cons x xs)
  show ?case
  proof
    assume "re_search ps (x # xs)"
    then consider "match_here ps (x # xs)" | "re_search ps xs" by (auto split: if_splits)
    then show "\<exists>pre m post. x # xs = pre @ m @ post \<and> matches ps m"
    proof cases
      case 1
      then obtain m r where "x # xs = [] @ m @ r \<and> matches ps m" by (auto simp: match_here_iff)
      then show ?thesis by blast
    next
      case 2
      then obtain pre m post where "xs = pre @ m @ post" "matches ps m" using Cons.IH by blast
      then have "x # xs = (x # pre) @ m @ post \<and> matches ps m" by simp
      then show ?thesis by blast
    qed
  next
    assume "\<exists>pre m post. x # xs = pre @ m @ post \<and> matches ps m"
    then obtain pre m post where s: "x # xs = pre @ m @ post" and m: "matches ps m" by blast
    show "re_search ps (x # xs)"
    proof (cases pre)
      case Nil
      then have "match_here ps (x # xs)" using s m match_here_complete[OF m, of post] by simp
      then show ?thesis by simp
    next
      case (Cons p pre')
      then have "xs = pre' @ m @ post" using s by simp
      then have "re_search ps xs" using Cons.IH m by blast
      then show ?thesis by simp
    qed
  qed
qed


inductive_simps matches_Nil_iff: "matches [] m"
inductive_simps matches_Lit_iff: "matches (Lit c # ps) m"
inductive_simps matches_Spaces_iff: "matches (Spaces # ps) m"

lemma same_ignoring_case_append:
  "same_ignoring_case (a @ b) m \<longleftrightarrow>
     (\<exists>ma mb. m = ma @ mb \<and> same_ignoring_case a ma \<and> same_ignoring_case b mb)"
  unfolding same_ignoring_case_def by (auto simp: append_eq_map_conv)

lemma same_ignoring_case_Cons:
  "same_ignoring_case (c # s) m \<longleftrightarrow>
     (\<exists>x m'. m = x # m' \<and> ci_eq c x \<and> same_ignoring_case s m')"
  unfolding same_ignoring_case_def ci_eq_def by (auto simp: Cons_eq_map_conv)

lemma matches_lits_append:
  "matches (lits s @ ps) m \<longleftrightarrow>
     (\<exists>a b. m = a @ b \<and> same_ignoring_case s a \<and> matches ps b)"
proof (induction s arbitrary: m)
  case Nil
  show ?case by (simp add: lits_def same_ignoring_case_def)
next
  case (Cons c s)
  have "matches (lits (c # s) @ ps) m \<longleftrightarrow>
      (\<exists>x m'. m = x # m' \<and> ci_eq c x \<and> matches (lits s @ ps) m')"
    by (auto simp: lits_def matches_Lit_iff)
  also have "\<dots> \<longleftrightarrow> (\<exists>x a b. m = (x # a) @ b \<and> ci_eq c x \<and> same_ignoring_case s a \<and> matches ps b)"
    unfolding Cons.IH by auto
  also have "\<dots> \<longleftrightarrow> (\<exists>a b. m = a @ b \<and> same_ignoring_case (c # s) a \<and> matches ps b)"
    unfolding same_ignoring_case_Cons by blast
  finally show ?case .
qed

lemma matches_lits: "matches (lits s) m \<longleftrightarrow> same_ignoring_case s m"
  using matches_lits_append[of s "[]" m] by (auto simp: matches_Nil_iff)

lemma matches_Spaces_append:
  "matches (Spaces # ps) m \<longleftrightarrow> (\<exists>ws b. m = ws @ b \<and> (\<forall>w\<in>set ws. is_space w) \<and> matches ps b)"
  by (auto simp: matches_Spaces_iff)


lemma any_pattern_patterns:
  "is_now_future_column title \<longleftrightarrow>
     re_search (patterns ! 0) title \<or> re_search (patterns ! 1) title \<or> re_search (patterns ! 2) title"
  by (simp add: is_now_future_column_def patterns_def)

lemma matches_plain:
  "matches (lits columnist @ [Spaces] @ lits (ustr ''Now&Future'')) m \<longleftrightarrow> plain_marker m"
  unfolding plain_marker_def matches_lits_append append_Cons append_Nil matches_Spaces_append
    matches_lits list_all_iff
  by blast

lemma same_ignoring_case_amp: "same_ignoring_case (ustr ''&'') a \<longleftrightarrow> a = [38]"
  by (auto simp: same_ignoring_case_def ustr_def lower_char_def split: if_splits)

lemma matches_tail5:
  "matches (Spaces # lits (ustr ''Future]'')) m \<longleftrightarrow>
     (\<exists>w3 f. m = w3 @ f \<and> list_all is_space w3 \<and> same_ignoring_case (ustr ''Future]'') f)"
  unfolding matches_Spaces_append matches_lits list_all_iff by blast

lemma matches_tail4:
  "matches (lits (ustr ''&'') @ Spaces # lits (ustr ''Future]'')) m \<longleftrightarrow>
     (\<exists>w3 f. m = [38] @ w3 @ f \<and> list_all is_space w3 \<and> same_ignoring_case (ustr ''Future]'') f)"
  unfolding matches_lits_append matches_tail5 same_ignoring_case_amp by blast

lemma matches_tail3:
  "matches (Spaces # lits (ustr ''&'') @ Spaces # lits (ustr ''Future]'')) m \<longleftrightarrow>
     (\<exists>w2 w3 f. m = w2 @ [38] @ w3 @ f \<and> list_all is_space w2 \<and> list_all is_space w3 \<and>
        same_ignoring_case (ustr ''Future]'') f)"
  unfolding matches_Spaces_append matches_tail4 list_all_iff by blast

lemma matches_tail2:
  "matches (lits (ustr ''Now'') @ Spaces # lits (ustr ''&'') @ Spaces # lits (ustr ''Future]'')) m \<longleftrightarrow>
     (\<exists>n w2 w3 f. m = n @ w2 @ [38] @ w3 @ f \<and> same_ignoring_case (ustr ''Now'') n \<and>
        list_all is_space w2 \<and> list_all is_space w3 \<and> same_ignoring_case (ustr ''Future]'') f)"
  unfolding matches_lits_append matches_tail3 by blast

lemma matches_tail1:
  "matches (Spaces # lits (ustr ''Now'') @ Spaces # lits (ustr ''&'') @ Spaces #
      lits (ustr ''Future]'')) m \<longleftrightarrow>
     (\<exists>w1 n w2 w3 f. m = w1 @ n @ w2 @ [38] @ w3 @ f \<and> list_all is_space w1 \<and>
        same_ignoring_case (ustr ''Now'') n \<and>
        list_all is_space w2 \<and> list_all is_space w3 \<and> same_ignoring_case (ustr ''Future]'') f)"
  unfolding matches_Spaces_append[of "lits (ustr ''Now'') @ Spaces # lits (ustr ''&'') @ Spaces #
      lits (ustr ''Future]'')"] matches_tail2 list_all_iff by blast

lemma matches_spaced:
  "matches (lits (ustr ''['' @ columnist) @ [Spaces] @ lits (ustr ''Now'') @ [Spaces] @
      lits (ustr ''&'') @ [Spaces] @ lits (ustr ''Future]'')) m \<longleftrightarrow> spaced_bracketed_marker m"
proof -
  have sp: "\<And>x. [Spaces] @ x = Spaces # x" by simp
  show ?thesis
    unfolding sp spaced_bracketed_marker_def
      matches_lits_append[of "ustr ''['' @ columnist"] matches_tail1
    by blast
qed


lemma matches_bracketed:
  assumes "matches (lits (ustr ''['' @ columnist) @ [Spaces] @ lits (ustr ''Now&Future]'')) m"
  shows "\<exists>b m' e. m = b @ m' @ e \<and> plain_marker m'"
proof -
  have sp: "\<And>x. [Spaces] @ x = Spaces # x" by simp
  from assms obtain k ws n where m: "m = k @ ws @ n"
    and k: "same_ignoring_case (ustr ''['' @ columnist) k"
    and ws: "\<forall>w\<in>set ws. is_space w"
    and n: "same_ignoring_case (ustr ''Now&Future]'') n"
    unfolding sp matches_lits_append[of "ustr ''['' @ columnist"] matches_Spaces_append matches_lits
    by blast
  from k obtain k1 k2 where k12: "k = k1 @ k2" "same_ignoring_case columnist k2"
    unfolding same_ignoring_case_append by blast
  have "ustr ''Now&Future]'' = ustr ''Now&Future'' @ ustr '']''" by (simp add: ustr_def)
  then have "same_ignoring_case (ustr ''Now&Future'' @ ustr '']'') n" using n by simp
  then obtain n1 n2 where n12: "n = n1 @ n2" "same_ignoring_case (ustr ''Now&Future'') n1"
    unfolding same_ignoring_case_append by blast
  have "plain_marker (k2 @ ws @ n1)"
    unfolding plain_marker_def list_all_iff using k12 ws n12 by blast
  moreover have "m = k1 @ (k2 @ ws @ n1) @ n2" using m k12 n12 by simp
  ultimately show ?thesis by blast
qed

lemma is_now_future_column_iff:
  "is_now_future_column title \<longleftrightarrow>
     (\<exists>pre m post. title = pre @ m @ post \<and> (plain_marker m \<or> spaced_bracketed_marker m))"
proof
  assume "is_now_future_column title"
  then consider
    "re_search (lits (ustr ''['' @ columnist) @ [Spaces] @ lits (ustr ''Now&Future]'')) title"
    | "re_search (lits (ustr ''['' @ columnist) @ [Spaces] @ lits (ustr ''Now'') @ [Spaces] @
        lits (ustr ''&'') @ [Spaces] @ lits (ustr ''Future]'')) title"
    | "re_search (lits columnist @ [Spaces] @ lits (ustr ''Now&Future'')) title"
    by (auto simp: is_now_future_column_def patterns_def split: if_splits)
  then show "\<exists>pre m post. title = pre @ m @ post \<and> (plain_marker m \<or> spaced_bracketed_marker m)"
  proof cases
    case 1
    then obtain pre m post where t: "title = pre @ m @ post"
      and m: "matches (lits (ustr ''['' @ columnist) @ [Spaces] @ lits (ustr ''Now&Future]'')) m"
      unfolding re_search_iff by blast
    from matches_bracketed[OF m] obtain b m' e where "m = b @ m' @ e" "plain_marker m'" by blast
    then have "title = (pre @ b) @ m' @ (e @ post) \<and> plain_marker m'" using t by simp
    then show ?thesis by blast
  next
    case 2
    then show ?thesis unfolding re_search_iff matches_spaced by blast
  next
    case 3
    then show ?thesis unfolding re_search_iff matches_plain by blast
  qed
next
  assume "\<exists>pre m post. title = pre @ m @ post \<and> (plain_marker m \<or> spaced_bracketed_marker m)"
  then obtain pre m post where t: "title = pre @ m @ post"
    and m: "plain_marker m \<or> spaced_bracketed_marker m" by blast
  from m have "re_search (lits columnist @ [Spaces] @ lits (ustr ''Now&Future'')) title \<or>
      re_search (lits (ustr ''['' @ columnist) @ [Spaces] @ lits (ustr ''Now'') @ [Spaces] @
        lits (ustr ''&'') @ [Spaces] @ lits (ustr ''Future]'')) title"
    unfolding re_search_iff matches_spaced matches_plain using t by blast
  then show "is_now_future_column title"
    by (auto simp: is_now_future_column_def patterns_def)
qed

lemma same_ignoring_case_amp_mem:
  "same_ignoring_case s n \<Longrightarrow> 38 \<in> set s \<Longrightarrow> 38 \<in> set n"
proof -
  assume a: "same_ignoring_case s n" and b: "38 \<in> set s"
  have "lower_char 38 = 38" by (simp add: lower_char_def)
  then have "38 \<in> set (map lower_char s)" using b by force
  then have "38 \<in> set (map lower_char n)" using a unfolding same_ignoring_case_def by metis
  then obtain x where "x \<in> set n" "lower_char x = 38" by auto
  then show ?thesis by (auto simp: lower_char_def split: if_splits)
qed

lemma is_now_future_column_ampersand: "is_now_future_column title \<Longrightarrow> 38 \<in> set title"
proof -
  assume "is_now_future_column title"
  then obtain pre m post where t: "title = pre @ m @ post"
    and m: "plain_marker m \<or> spaced_bracketed_marker m"
    unfolding is_now_future_column_iff by blast
  from m have "38 \<in> set m"
  proof
    assume "plain_marker m"
    then obtain k ws n where "m = k @ ws @ n" "same_ignoring_case (ustr ''Now&Future'') n"
      unfolding plain_marker_def by blast
    moreover have "38 \<in> set (ustr ''Now&Future'')" by (simp add: ustr_def)
    ultimately show ?thesis using same_ignoring_case_amp_mem by auto
  next
    assume "spaced_bracketed_marker m"
    then show ?thesis unfolding spaced_bracketed_marker_def by auto
  qed
  then show ?thesis using t by simp
qed



text \<open>
C7 (as stated, refuted). A title with the bracketed marker written with the full-width
  ampersand (code point 65286) is rejected, and a title that has the marker without any
  bracket is accepted.
\<close>

theorem is_now_future_column_counterexample:
  "\<not> is_now_future_column ([91] @ columnist @ ustr '' Now'' @ [65286] @ ustr ''Future] A title'') \<and>
   is_now_future_column (columnist @ ustr '' now&future: a title without brackets'')"
  by (simp add: is_now_future_column_def patterns_def lits_def columnist_def ustr_def ci_eq_def
      lower_char_def is_space_def)

text \<open>
C7 (amended). A title is accepted exactly when some part of it is a marker of one of two
  shapes, letters compared ignoring case: the name of the columnist, optional whitespace
  and \<open>Now&Future\<close>, with or without brackets around it; or the opening bracket, the name,
  optional whitespace, \<open>Now\<close>, optional whitespace, the ampersand, optional whitespace,
  \<open>Future\<close> and the closing bracket. The ampersand is the ASCII one: a title without an
  ASCII ampersand is rejected, whatever else it contains.
\<close>

theorem is_now_future_column_amended:
  "(is_now_future_column title \<longleftrightarrow>
      (\<exists>pre m post. title = pre @ m @ post \<and> (plain_marker m \<or> spaced_bracketed_marker m))) \<and>
   (38 \<notin> set title \<longrightarrow> \<not> is_now_future_column title)"
proof (intro conjI impI)
  show "is_now_future_column title \<longleftrightarrow>
      (\<exists>pre m post. title = pre @ m @ post \<and> (plain_marker m \<or> spaced_bracketed_marker m))"
    by (rule is_now_future_column_iff)
  show "\<not> is_now_future_column title" if "38 \<notin> set title"
    using that is_now_future_column_ampersand[of title] by blast
qed

theorem is_now_future_column_amended_witness:
  "is_now_future_column ([91] @ columnist @ ustr ''  NOW & future] A title'') \<and>
   (\<exists>pre m post. [91] @ columnist @ ustr ''  NOW & future] A title'' = pre @ m @ post \<and>
      (plain_marker m \<or> spaced_bracketed_marker m)) \<and>
   \<not> is_now_future_column ([91] @ columnist @ ustr '' Now'' @ [65286] @ ustr ''Future]'')"
proof -
  let ?t = "[91] @ columnist @ ustr ''  NOW & future] A title''"
  let ?u = "[91] @ columnist @ ustr '' Now'' @ [65286] @ ustr ''Future]''"
  have e: "is_now_future_column ?t"
    by (simp add: is_now_future_column_def patterns_def lits_def columnist_def ustr_def ci_eq_def
        lower_char_def is_space_def)
  have h: "38 \<notin> set ?u" by (simp add: columnist_def ustr_def)
  have a: "\<exists>pre m post. ?t = pre @ m @ post \<and> (plain_marker m \<or> spaced_bracketed_marker m)"
    using is_now_future_column_amended[of ?t, THEN conjunct1] e by (rule iffD1)
  have b: "\<not> is_now_future_column ?u"
    using is_now_future_column_amended[of ?u, THEN conjunct2] h by (rule mp)
  show ?thesis using e a b by (intro conjI)
qed

subsection \<open>The cached-URL collector\<close>

lemma scrape_loop_fetched:
  "\<exists>k\<le>length urls. snd (scrape_loop fetch py yf mp urls (posts, fetched)) = fetched @ take k urls"
proof (induction urls arbitrary: posts fetched)
  case Nil
  then show ?case by simp
next
  case (Cons url urls)
  have step: "\<exists>k\<le>length (url # urls).
      snd (scrape_loop fetch py yf mp urls (ps, fetched @ [url])) = fetched @ take k (url # urls)" for ps
  proof -
    from Cons.IH[of ps "fetched @ [url]"] obtain k where
      "k \<le> length urls" "snd (scrape_loop fetch py yf mp urls (ps, fetched @ [url])) = (fetched @ [url]) @ take k urls"
      by blast
    then have "Suc k \<le> length (url # urls) \<and>
      snd (scrape_loop fetch py yf mp urls (ps, fetched @ [url])) = fetched @ take (Suc k) (url # urls)"
      by simp
    then show ?thesis by blast
  qed
  have stop: "\<exists>k\<le>length (url # urls). fetched @ [url] = fetched @ take k (url # urls)"
    by (rule exI[of _ 1]) simp
  show ?case
    using step stop by (simp split: sum.splits option.splits)
qed

lemma scrape_loop_count:
  "int (length posts) < mp \<Longrightarrow>
   int (length (fst (scrape_loop fetch py yf mp urls (posts, fetched)))) \<le> mp"
proof (induction urls arbitrary: posts fetched)
  case Nil
  then show ?case by simp
next
  case (Cons url urls)
  show ?case
    using Cons.prems Cons.IH by (auto split: sum.splits option.splits)
qed


text \<open>
C10. With a maximum that is not negative, the URLs passed to the scraper are the first
  \<open>k\<close> candidates of the list, in order, for some \<open>k\<close> of at most twice the maximum: no
  candidate at a later position is requested, however few posts were accepted. The number
  of accepted posts is at most the maximum, and \<open>collect_posts\<close> returns them unless the
  final save raises.
\<close>

theorem collect_posts_aju_bounds:
  "0 \<le> max_posts \<longrightarrow>
     (\<exists>k. k \<le> nat (2 * max_posts) \<and>
        snd (scrape_candidates fetch parse_year year_filter max_posts url_list) = take k url_list) \<and>
     int (length (fst (scrape_candidates fetch parse_year year_filter max_posts url_list))) \<le> max_posts \<and>
     collect_posts_aju fetch parse_year save year_filter max_posts url_list =
       (case save (fst (scrape_candidates fetch parse_year year_filter max_posts url_list)) of
          Inl e \<Rightarrow> Inl e
        | Inr u \<Rightarrow> Inr (fst (scrape_candidates fetch parse_year year_filter max_posts url_list)))"
proof
  assume nonneg: "0 \<le> max_posts"
  let ?n = "nat (2 * max_posts)"
  have cand: "py_take (max_posts * 2) url_list = take ?n url_list"
    using nonneg by (simp add: py_take_def mult.commute)
  from scrape_loop_fetched[of "take ?n url_list" fetch parse_year year_filter max_posts "[]" "[]"]
  obtain k where k: "k \<le> length (take ?n url_list)"
    and f: "snd (scrape_loop fetch parse_year year_filter max_posts (take ?n url_list) ([], [])) =
      take k (take ?n url_list)"
    by auto
  have "min k ?n \<le> ?n \<and>
      snd (scrape_candidates fetch parse_year year_filter max_posts url_list) = take (min k ?n) url_list"
    using f by (simp add: scrape_candidates_def cand)
  then have a: "\<exists>k. k \<le> ?n \<and>
      snd (scrape_candidates fetch parse_year year_filter max_posts url_list) = take k url_list"
    by blast
  have b: "int (length (fst (scrape_candidates fetch parse_year year_filter max_posts url_list))) \<le> max_posts"
  proof (cases "max_posts = 0")
    case True
    then show ?thesis by (simp add: scrape_candidates_def py_take_def)
  next
    case False
    then have "int (length ([]::article list)) < max_posts" using nonneg by simp
    from scrape_loop_count[OF this] show ?thesis by (simp add: scrape_candidates_def)
  qed
  have c: "collect_posts_aju fetch parse_year save year_filter max_posts url_list =
       (case save (fst (scrape_candidates fetch parse_year year_filter max_posts url_list)) of
          Inl e \<Rightarrow> Inl e
        | Inr u \<Rightarrow> Inr (fst (scrape_candidates fetch parse_year year_filter max_posts url_list)))"
    by (simp add: collect_posts_aju_def Let_def)
  show "(\<exists>k. k \<le> nat (2 * max_posts) \<and>
        snd (scrape_candidates fetch parse_year year_filter max_posts url_list) = take k url_list) \<and>
     int (length (fst (scrape_candidates fetch parse_year year_filter max_posts url_list))) \<le> max_posts \<and>
     collect_posts_aju fetch parse_year save year_filter max_posts url_list =
       (case save (fst (scrape_candidates fetch parse_year year_filter max_posts url_list)) of
          Inl e \<Rightarrow> Inl e
        | Inr u \<Rightarrow> Inr (fst (scrape_candidates fetch parse_year year_filter max_posts url_list)))"
    using a b c by (intro conjI)
qed

theorem collect_posts_aju_bounds_witness:
  "scrape_candidates (\<lambda>u. Inl RequestException) (\<lambda>s. Inl ValueError) 2025 1
     [ustr ''u1'', ustr ''u2'', ustr ''u3''] = ([], [ustr ''u1'', ustr ''u2'']) \<and>
   (\<exists>k. k \<le> 2 \<and>
      snd (scrape_candidates (\<lambda>u. Inl RequestException) (\<lambda>s. Inl ValueError) 2025 1
        [ustr ''u1'', ustr ''u2'', ustr ''u3'']) = take k [ustr ''u1'', ustr ''u2'', ustr ''u3'']) \<and>
   collect_posts_aju (\<lambda>u. Inl RequestException) (\<lambda>s. Inl ValueError) (\<lambda>ps. Inr ()) 2025 1
     [ustr ''u1'', ustr ''u2'', ustr ''u3''] = Inr []"
proof -
  let ?fetch = "\<lambda>u::ustring. (Inl RequestException :: py_error + article_page)"
  let ?py = "\<lambda>s::ustring. (Inl ValueError :: py_error + int)"
  let ?save = "\<lambda>ps::article list. (Inr () :: py_error + unit)"
  let ?urls = "[ustr ''u1'', ustr ''u2'', ustr ''u3'']"
  have h: "(0::int) \<le> 1" by simp
  note T = collect_posts_aju_bounds[of 1 ?fetch ?py 2025 ?urls ?save, THEN mp, OF h]
  have e: "scrape_candidates ?fetch ?py 2025 1 ?urls = ([], [ustr ''u1'', ustr ''u2''])"
    by (simp add: scrape_candidates_def py_take_def scrape_article_def)
  have a: "\<exists>k. k \<le> 2 \<and> snd (scrape_candidates ?fetch ?py 2025 1 ?urls) = take k ?urls"
    using T[THEN conjunct1] by simp
  have c: "collect_posts_aju ?fetch ?py ?save 2025 1 ?urls = Inr []"
    using T[THEN conjunct2, THEN conjunct2] unfolding e by simp
  show ?thesis using e a c by (intro conjI)
qed

subsection \<open>The report\<close>

lemma dt_lt_kind:
  "dt_lt a b = (if is_naive a = is_naive b then Inr (instant a < instant b) else Inl TypeError)"
  by (cases a; cases b) simp_all

lemma insert_desc_same_kind:
  "is_naive (fst x) = n \<Longrightarrow> \<forall>y\<in>set ys. is_naive (fst y) = n \<Longrightarrow>
   insert_desc x ys = Inr (insort_key (\<lambda>p. - instant (fst p)) x ys)"
  by (induction ys) (auto simp: dt_lt_kind)

lemma sorted_desc_same_kind:
  "\<forall>x\<in>set xs. is_naive (fst x) = n \<Longrightarrow>
   sorted_desc xs = Inr (sort_key (\<lambda>p. - instant (fst p)) xs)"
proof (induction xs)
  case Nil
  then show ?case by simp
next
  case (Cons x xs)
  have r: "sorted_desc xs = Inr (sort_key (\<lambda>p. - instant (fst p)) xs)"
    using Cons.prems by (intro Cons.IH) simp
  have "is_naive (fst x) = n" using Cons.prems by simp
  moreover have "\<forall>y\<in>set (sort_key (\<lambda>p. - instant (fst p)) xs). is_naive (fst y) = n"
    using Cons.prems by simp
  ultimately have "insert_desc x (sort_key (\<lambda>p. - instant (fst p)) xs) =
      Inr (insort_key (\<lambda>p. - instant (fst p)) x (sort_key (\<lambda>p. - instant (fst p)) xs))"
    by (rule insert_desc_same_kind)
  then show ?case using r by simp
qed

lemma insert_desc_other_kind:
  "ys \<noteq> [] \<Longrightarrow> \<forall>y\<in>set ys. is_naive (fst y) = (\<not> is_naive (fst x)) \<Longrightarrow>
   insert_desc x ys = Inl TypeError"
  by (cases ys) (auto simp: dt_lt_kind)

lemma sorted_desc_mixed:
  "\<exists>x\<in>set xs. is_naive (fst x) \<Longrightarrow> \<exists>y\<in>set xs. \<not> is_naive (fst y) \<Longrightarrow>
   sorted_desc xs = Inl TypeError"
proof (induction xs)
  case Nil
  then show ?case by simp
next
  case (Cons x xs)
  show ?case
  proof (cases "(\<exists>a\<in>set xs. is_naive (fst a)) \<and> (\<exists>b\<in>set xs. \<not> is_naive (fst b))")
    case True
    then have "sorted_desc xs = Inl TypeError" using Cons.IH by blast
    then show ?thesis by simp
  next
    case False
    then have other: "\<forall>z\<in>set xs. is_naive (fst z) = (\<not> is_naive (fst x))"
      using Cons.prems by auto
    have xs: "xs \<noteq> []" using Cons.prems False by auto
    let ?r = "sort_key (\<lambda>p. - instant (fst p)) xs"
    have r: "sorted_desc xs = Inr ?r" using other by (rule sorted_desc_same_kind)
    have "set ?r = set xs" by simp
    then have ne: "?r \<noteq> []" using xs by (metis set_empty)
    have "\<forall>z\<in>set ?r. is_naive (fst z) = (\<not> is_naive (fst x))" using other by simp
    from insert_desc_other_kind[OF ne this] show ?thesis using r by simp
  qed
qed


lemma insort_key_keyed:
  "insort_key (\<lambda>p. g (fst p)) (k p, p) (map (\<lambda>p. (k p, p)) ys) =
   map (\<lambda>p. (k p, p)) (insort_key (\<lambda>p. g (k p)) p ys)"
  by (induction ys) simp_all

lemma sort_key_keyed:
  "sort_key (\<lambda>p. g (fst p)) (map (\<lambda>p. (k p, p)) ps) =
   map (\<lambda>p. (k p, p)) (sort_key (\<lambda>p. g (k p)) ps)"
  by (induction ps) (simp_all add: insort_key_keyed)

lemma sort_posts_same_kind:
  assumes "\<forall>p\<in>set posts. is_naive (parse_date parse (published_or_empty p)) = n"
  shows "sort_posts parse posts =
     Inr (sort_key (\<lambda>p. - instant (parse_date parse (published_or_empty p))) posts)"
proof -
  let ?k = "\<lambda>p. parse_date parse (published_or_empty p)"
  have "\<forall>x\<in>set (map (\<lambda>p. (?k p, p)) posts). is_naive (fst x) = n"
    using assms by simp
  then have "sorted_desc (map (\<lambda>p. (?k p, p)) posts) =
      Inr (sort_key (\<lambda>p. - instant (fst p)) (map (\<lambda>p. (?k p, p)) posts))"
    by (rule sorted_desc_same_kind)
  then have "sorted_desc (map (\<lambda>p. (?k p, p)) posts) =
      Inr (map (\<lambda>p. (?k p, p)) (sort_key (\<lambda>p. - instant (?k p)) posts))"
    using sort_key_keyed[of "\<lambda>d. - instant d" ?k posts] by simp
  then show ?thesis by (simp add: sort_posts_def comp_def)
qed

lemma sort_posts_mixed:
  assumes "p \<in> set posts" "is_naive (parse_date parse (published_or_empty p))"
    "q \<in> set posts" "\<not> is_naive (parse_date parse (published_or_empty q))"
  shows "sort_posts parse posts = Inl TypeError"
proof -
  let ?k = "\<lambda>p. parse_date parse (published_or_empty p)"
  have a: "\<exists>x\<in>set (map (\<lambda>p. (?k p, p)) posts). is_naive (fst x)"
    using assms(1,2) by force
  have b: "\<exists>y\<in>set (map (\<lambda>p. (?k p, p)) posts). \<not> is_naive (fst y)"
    using assms(3,4) by force
  from sorted_desc_mixed[OF a b] show ?thesis by (simp add: sort_posts_def)
qed

lemma report_sections_categories:
  "report_sections parse cats cs = Inr secs \<Longrightarrow>
   map fst secs = filter (\<lambda>c. map_of cats c \<noteq> Some []) cs"
proof (induction cs arbitrary: secs)
  case Nil
  then show ?case by simp
next
  case (Cons c cs)
  show ?case
  proof (cases "map_of cats c")
    case None
    then show ?thesis using Cons.prems by simp
  next
    case (Some posts)
    show ?thesis
    proof (cases "posts = []")
      case True
      then show ?thesis using Cons Some by simp
    next
      case False
      from Cons.prems Some False obtain sp rest where
        "sort_posts parse posts = Inr sp" "report_sections parse cats cs = Inr rest"
        "secs = (c, sp) # rest"
        by (auto split: sum.splits)
      then show ?thesis using Cons.IH Some False by simp
    qed
  qed
qed


lemma report_sections_same_kind:
  assumes kind: "\<And>c posts p. map_of cats c = Some posts \<Longrightarrow> p \<in> set posts \<Longrightarrow>
      is_naive (parse_date parse (published_or_empty p)) = n"
    and keys: "set cs \<subseteq> fst ` set cats"
  shows "report_sections parse cats cs =
     Inr (map (\<lambda>c. (c, sort_key (\<lambda>p. - instant (parse_date parse (published_or_empty p)))
                         (the (map_of cats c))))
            (filter (\<lambda>c. map_of cats c \<noteq> Some []) cs))"
  using keys
proof (induction cs)
  case Nil
  then show ?case by simp
next
  case (Cons c cs)
  have "c \<in> fst ` set cats" using Cons.prems by simp
  then obtain posts where some: "map_of cats c = Some posts"
    by (metis map_of_eq_None_iff not_Some_eq)
  have rest: "report_sections parse cats cs =
     Inr (map (\<lambda>c. (c, sort_key (\<lambda>p. - instant (parse_date parse (published_or_empty p)))
                         (the (map_of cats c))))
            (filter (\<lambda>c. map_of cats c \<noteq> Some []) cs))"
    using Cons.prems by (intro Cons.IH) simp
  have "\<forall>p\<in>set posts. is_naive (parse_date parse (published_or_empty p)) = n"
    using kind[OF some] by blast
  then have sp: "sort_posts parse posts =
      Inr (sort_key (\<lambda>p. - instant (parse_date parse (published_or_empty p))) posts)"
    by (rule sort_posts_same_kind)
  show ?case using some rest sp by simp
qed

lemma sorted_categories_keys: "set (sorted_categories cats) \<subseteq> fst ` set cats"
  by (auto simp: sorted_categories_def)

lemma report_body_same_kind:
  assumes "\<And>c posts p. map_of cats c = Some posts \<Longrightarrow> p \<in> set posts \<Longrightarrow>
      is_naive (parse_date parse (published_or_empty p)) = n"
  shows "report_body parse cats =
     Inr (map (\<lambda>c. (c, sort_key (\<lambda>p. - instant (parse_date parse (published_or_empty p)))
                         (the (map_of cats c))))
            (filter (\<lambda>c. map_of cats c \<noteq> Some []) (sorted_categories cats)))"
  unfolding report_body_def
  using assms sorted_categories_keys by (rule report_sections_same_kind)

text \<open>
C8 (the code at the failing input). One category holds a post whose date carries an
  offset from UTC, which the parser returns as an aware datetime, and a post whose date
  does not parse, for which \<open>_parse_date\<close> returns the naive \<open>datetime.min\<close>. Ordering the
  two compares an aware with a naive datetime: the sort raises \<open>TypeError\<close> and no report
  body is produced, where the claim has the undated post listed last. When the dates of
  every category are all naive or all aware, the body lists the categories that have posts
  in the canonical order followed by the others in the order of the dict, and the posts of
  each category by date, latest first, in a stable order (lemma \<open>report_body_same_kind\<close>).
\<close>

theorem report_body_mixed_dates:
  "report_body sample_parse
     [(cat_ai,
       [\<lparr>rp_title = ustr ''dated'', rp_published = Some (ustr ''Mon, 05 Jan 2026 09:00:00 +0900''),
         rp_summary = ustr ''s1'', rp_link = ustr ''l1''\<rparr>,
        \<lparr>rp_title = ustr ''undated'', rp_published = Some (ustr ''no date here''),
         rp_summary = ustr ''s2'', rp_link = ustr ''l2''\<rparr>])] = Inl TypeError"
  by (simp add: report_body_def sorted_categories_def category_order_def sort_posts_def
      parse_date_def published_or_empty_def sample_parse_def datetime_min_def ustr_def
      cat_ai_def cat_science_def cat_research_def cat_industry_def cat_policy_def cat_other_def)

end
